theory Spec2Isabelle
  imports Complex_Main "HOL-Library.Multiset"
begin

section \<open>Bikewatching: the traffic pipeline of map.js\<close>

text \<open>
  The development follows the last and complete version of the script (the one with the
  time slider): \<open>minutesSinceMidnight\<close>, \<open>filterTripsByTime\<close>, \<open>computeStationTraffic\<close>,
  \<open>updateTimeDisplay\<close> and \<open>updateScatterPlot\<close>, together with the parts of the D3 library
  (version 7) that these functions call: \<open>d3.rollup\<close>, \<open>d3.max\<close>, \<open>d3.scaleQuantize\<close>,
  \<open>d3.scaleSqrt\<close> and the keyed data join of \<open>selection.data\<close>.
\<close>

subsection \<open>Numbers and dates of the language\<close>

text \<open>
  A number of the script is either \<open>NaN\<close> or an integer. Counts, minutes of the day and the
  slider positions are integers far below \<open>2 ^ 53\<close>, where the double arithmetic of the
  language is exact; fractions and infinities are outside the model. Every comparison
  with \<open>NaN\<close> is false, and \<open>NaN\<close> is absorbing for the arithmetic operations.
\<close>

datatype jsnum = NaN | Num int

fun js_add :: "jsnum \<Rightarrow> jsnum \<Rightarrow> jsnum" where
  "js_add (Num a) (Num b) = Num (a + b)"
| "js_add _ _ = NaN"

fun js_sub :: "jsnum \<Rightarrow> jsnum \<Rightarrow> jsnum" where
  "js_sub (Num a) (Num b) = Num (a - b)"
| "js_sub _ _ = NaN"

fun js_mul :: "jsnum \<Rightarrow> jsnum \<Rightarrow> jsnum" where
  "js_mul (Num a) (Num b) = Num (a * b)"
| "js_mul _ _ = NaN"

fun js_abs :: "jsnum \<Rightarrow> jsnum" where
  "js_abs (Num a) = Num \<bar>a\<bar>"
| "js_abs NaN = NaN"

fun js_le :: "jsnum \<Rightarrow> jsnum \<Rightarrow> bool" where
  "js_le (Num a) (Num b) = (a \<le> b)"
| "js_le _ _ = False"

text \<open>Strict equality \<open>===\<close> on numbers: \<open>NaN\<close> is equal to nothing, itself included.\<close>

fun js_strict_eq :: "jsnum \<Rightarrow> jsnum \<Rightarrow> bool" where
  "js_strict_eq (Num a) (Num b) = (a = b)"
| "js_strict_eq _ _ = False"

text \<open>
  A \<open>Date\<close> object holds a time value in milliseconds, or is invalid (what \<open>new Date(s)\<close>
  gives for a string \<open>s\<close> it cannot parse). \<open>Date t\<close> carries the local time value, that is
  the time value shifted by the offset of the local time zone, which is the value that
  \<open>getHours\<close> and \<open>getMinutes\<close> read: hour \<open>floor (t / msPerHour) modulo 24\<close> and minute
  \<open>floor (t / msPerMinute) modulo 60\<close>. On an invalid date both return \<open>NaN\<close>.
\<close>

datatype Date = Invalid_Date | Date int

definition msPerMinute :: int where
  "msPerMinute = 60000"

definition msPerHour :: int where
  "msPerHour = 3600000"

fun getHours :: "Date \<Rightarrow> jsnum" where
  "getHours Invalid_Date = NaN"
| "getHours (Date t) = Num ((t div msPerHour) mod 24)"

fun getMinutes :: "Date \<Rightarrow> jsnum" where
  "getMinutes Invalid_Date = NaN"
| "getMinutes (Date t) = Num ((t div msPerMinute) mod 60)"

subsection \<open>Stations and trips\<close>

text \<open>
  A station of the feed is read through its \<open>short_name\<close>, \<open>lat\<close> and \<open>lon\<close>. A trip row
  has the two station ids and the two timestamps, already turned into dates by the loader.
\<close>

record Station =
  short_name :: string
  lat :: rat
  lon :: rat

record Trip =
  start_station_id :: string
  end_station_id :: string
  started_at :: Date
  ended_at :: Date

text \<open>
  The object \<open>{...station, arrivals, departures, totalTraffic}\<close>: every field of the
  station, and the three counts.
\<close>

record AnnotatedStation = Station +
  arrivals :: nat
  departures :: nat
  totalTraffic :: nat

definition station_of :: "AnnotatedStation \<Rightarrow> Station" where
  "station_of a = \<lparr>short_name = short_name a, lat = lat a, lon = lon a\<rparr>"

subsection \<open>The time window filter\<close>

definition minutesSinceMidnight :: "Date \<Rightarrow> jsnum" where
  "minutesSinceMidnight date = js_add (js_mul (getHours date) (Num 60)) (getMinutes date)"

definition filterTripsByTime :: "Trip list \<Rightarrow> jsnum \<Rightarrow> Trip list" where
  "filterTripsByTime allTrips timeFilter =
     (if js_strict_eq timeFilter (Num (- 1)) then allTrips
      else filter (\<lambda>trip.
             let start = minutesSinceMidnight (started_at trip);
                 endm = minutesSinceMidnight (ended_at trip)
             in js_le (js_abs (js_sub start timeFilter)) (Num 60) \<or>
                js_le (js_abs (js_sub endm timeFilter)) (Num 60)) allTrips)"

subsection \<open>The traffic aggregator\<close>

text \<open>
  \<open>d3.rollup(values, reduce, key)\<close> groups the values by key in a map that keeps the order
  in which the keys first appear, then replaces every group by \<open>reduce(group)\<close>. The map is
  an association list here; \<open>get\<close> is the lookup \<open>map_of\<close>.
\<close>

fun add_to_group :: "'k \<Rightarrow> 'a \<Rightarrow> ('k \<times> 'a list) list \<Rightarrow> ('k \<times> 'a list) list" where
  "add_to_group k v [] = [(k, [v])]"
| "add_to_group k v ((k', vs) # groups) =
     (if k = k' then (k', vs @ [v]) # groups else (k', vs) # add_to_group k v groups)"

definition d3_group :: "'a list \<Rightarrow> ('a \<Rightarrow> 'k) \<Rightarrow> ('k \<times> 'a list) list" where
  "d3_group vals key = foldl (\<lambda>groups v. add_to_group (key v) v groups) [] vals"

definition rollup :: "'a list \<Rightarrow> ('a list \<Rightarrow> 'b) \<Rightarrow> ('a \<Rightarrow> 'k) \<Rightarrow> ('k \<times> 'b) list" where
  "rollup vals reduce key = map (\<lambda>(k, vs). (k, reduce vs)) (d3_group vals key)"

text \<open>\<open>m.get(id) ?? 0\<close>: the count stored for the id, and 0 when the map has no such key.\<close>

definition get_or_zero :: "(string \<times> nat) list \<Rightarrow> string \<Rightarrow> nat" where
  "get_or_zero m k = (case map_of m k of None \<Rightarrow> 0 | Some n \<Rightarrow> n)"

definition computeStationTraffic :: "Station list \<Rightarrow> Trip list \<Rightarrow> AnnotatedStation list" where
  "computeStationTraffic stations tripsSubset =
     (let departures = rollup tripsSubset length start_station_id;
          arrivals = rollup tripsSubset length end_station_id
      in map (\<lambda>station.
            let ident = short_name station;
                arrivalsCount = get_or_zero arrivals ident;
                departuresCount = get_or_zero departures ident
            in \<lparr>short_name = short_name station, lat = lat station, lon = lon station,
                arrivals = arrivalsCount, departures = departuresCount,
                totalTraffic = arrivalsCount + departuresCount\<rparr>) stations)"

subsection \<open>The two scales\<close>

text \<open>
  \<open>d3.max(values, valueof)\<close>: the greatest value, and \<open>undefined\<close> (here \<open>None\<close>) for
  an empty array.
\<close>

fun d3_max_from :: "nat option \<Rightarrow> nat list \<Rightarrow> nat option" where
  "d3_max_from mx [] = mx"
| "d3_max_from mx (v # vs) =
     d3_max_from (case mx of None \<Rightarrow> Some v | Some m \<Rightarrow> if m < v then Some v else Some m) vs"

definition d3_max :: "'a list \<Rightarrow> ('a \<Rightarrow> nat) \<Rightarrow> nat option" where
  "d3_max vals valueof = d3_max_from None (map valueof vals)"

text \<open>
  \<open>d3.bisectRight(a, x, lo, hi)\<close>, the binary search of the quantize scale: the first
  index in \<open>[lo, hi)\<close> whose threshold is greater than \<open>x\<close>.
\<close>

function bisect_right :: "rat list \<Rightarrow> rat \<Rightarrow> nat \<Rightarrow> nat \<Rightarrow> nat" where
  "bisect_right a x lo hi =
     (if lo < hi then
        (let mid = (lo + hi) div 2
         in if a ! mid \<le> x then bisect_right a x (mid + 1) hi else bisect_right a x lo mid)
      else lo)"
  by pat_completeness auto
termination
  by (relation "measure (\<lambda>(a, x, lo, hi). hi - lo)") auto

declare bisect_right.simps [simp del]

text \<open>
  \<open>d3.scaleQuantize().domain([x0, x1]).range(r)\<close>: with \<open>n = length r - 1\<close> the
  thresholds are \<open>((i + 1) * x1 - (i - n) * x0) / (n + 1)\<close> for \<open>i < n\<close>, and the scale
  returns \<open>r[bisect(thresholds, x, 0, n)]\<close>. The ratios it is applied to are quotients of
  two counts; the rationals stand for them.
\<close>

record quantize_scale =
  q_x0 :: rat
  q_x1 :: rat
  q_range :: "rat list"

definition q_thresholds :: "quantize_scale \<Rightarrow> rat list" where
  "q_thresholds sc =
     (let n = length (q_range sc) - 1
      in map (\<lambda>i. ((of_nat i + 1) * q_x1 sc - (of_nat i - of_nat n) * q_x0 sc) / (of_nat n + 1))
           [0 ..< n])"

definition quantize_apply :: "quantize_scale \<Rightarrow> rat \<Rightarrow> rat" where
  "quantize_apply sc x = q_range sc ! bisect_right (q_thresholds sc) x 0 (length (q_range sc) - 1)"

definition stationFlow :: "rat \<Rightarrow> rat" where
  "stationFlow = quantize_apply \<lparr>q_x0 = 0, q_x1 = 1, q_range = [0, 1 / 2, 1]\<rparr>"

text \<open>The value of the style property \<open>--departure-ratio\<close> of a circle.\<close>

definition departure_ratio_of :: "AnnotatedStation \<Rightarrow> rat" where
  "departure_ratio_of d =
     (if totalTraffic d = 0 then stationFlow (1 / 2)
      else (let ratio = of_nat (departures d) / of_nat (totalTraffic d) in stationFlow ratio))"

text \<open>
  \<open>d3.scaleSqrt()\<close> is the continuous scale with exponent one half and no clamping: the
  domain ends and the argument go through \<open>transformSqrt\<close>, the argument is normalised
  between the transformed ends, and the range ends are interpolated. The real numbers
  stand for the doubles here, so the rounding of the square root and of the interpolation
  is not part of the model.
\<close>

record sqrt_scale =
  s_domain :: "real \<times> real"
  s_range :: "real \<times> real"

definition scaleSqrt :: sqrt_scale where
  "scaleSqrt = \<lparr>s_domain = (0, 1), s_range = (0, 1)\<rparr>"

definition transformSqrt :: "real \<Rightarrow> real" where
  "transformSqrt x = (if x < 0 then - sqrt (- x) else sqrt x)"

definition normalize :: "real \<Rightarrow> real \<Rightarrow> real \<Rightarrow> real" where
  "normalize a b x = (if b - a \<noteq> 0 then (x - a) / (b - a) else 1 / 2)"

definition interpolateNumber :: "real \<Rightarrow> real \<Rightarrow> real \<Rightarrow> real" where
  "interpolateNumber a b t = a * (1 - t) + b * t"

definition scale_apply :: "sqrt_scale \<Rightarrow> real \<Rightarrow> real" where
  "scale_apply sc x =
     (let d0 = transformSqrt (fst (s_domain sc)); d1 = transformSqrt (snd (s_domain sc));
          r0 = fst (s_range sc); r1 = snd (s_range sc)
      in if d1 < d0 then interpolateNumber r1 r0 (normalize d1 d0 (transformSqrt x))
         else interpolateNumber r0 r1 (normalize d0 d1 (transformSqrt x)))"

subsection \<open>Printing numbers\<close>

text \<open>
  A count inside a template literal is printed in decimal, without sign, separators or
  leading zeros.
\<close>

definition digit_char :: "nat \<Rightarrow> char" where
  "digit_char n = ''0123456789'' ! n"

fun string_of_nat :: "nat \<Rightarrow> string" where
  "string_of_nat n =
     (if n < 10 then [digit_char n] else string_of_nat (n div 10) @ [digit_char (n mod 10)])"

declare string_of_nat.simps [simp del]

text \<open>Reading a decimal numeral back, to say what the printed digits denote.\<close>

definition nat_of_string :: "string \<Rightarrow> nat" where
  "nat_of_string s = foldl (\<lambda>acc c. 10 * acc + (of_char c - 48)) 0 s"

definition tooltip :: "AnnotatedStation \<Rightarrow> string" where
  "tooltip d = string_of_nat (totalTraffic d) @ '' trips ('' @ string_of_nat (departures d)
                 @ '' departures, '' @ string_of_nat (arrivals d) @ '' arrivals)''"

text \<open>
  \<open>formatTime\<close> sets the minutes on today's midnight and prints the time of day in the
  short en-US style, as in \<open>9:30 PM\<close>. The minutes beyond a day roll over into the next
  day; the separator before AM or PM is written as a plain space, and a change of the
  clock during the day is not part of the model.
\<close>

definition pad2 :: "nat \<Rightarrow> string" where
  "pad2 n = (if n < 10 then CHR ''0'' # string_of_nat n else string_of_nat n)"

fun formatTime :: "jsnum \<Rightarrow> string" where
  "formatTime NaN = ''Invalid Date''"
| "formatTime (Num minutes) =
     (let t = nat (minutes mod 1440); h = t div 60; m = t mod 60;
          h12 = (if h mod 12 = 0 then 12 else h mod 12)
      in string_of_nat h12 @ '':'' @ pad2 m @ '' '' @ (if h < 12 then ''AM'' else ''PM''))"

subsection \<open>Markers and the keyed join\<close>

text \<open>
  A circle of the overlay: the datum bound to it, its radius attribute, its
  \<open>--departure-ratio\<close> style and the texts of its \<open>title\<close> children, in document order.
  The constant base style of a new circle and its position, which the map engine's
  projection gives, are left out.
\<close>

record marker =
  datum :: AnnotatedStation
  attr_r :: "real option"
  departure_ratio :: "rat option"
  titles :: "string list"

definition new_circle :: "AnnotatedStation \<Rightarrow> marker" where
  "new_circle d = \<lparr>datum = d, attr_r = None, departure_ratio = None, titles = []\<rparr>"

text \<open>
  The keyed bind of \<open>selection.data(data, key)\<close> runs three loops. A node is identified by
  its index in the selected group (the circles in document order), and \<open>nodeByKeyValue\<close>
  maps a key to such an index.

  Loop 1, over the group: a node whose key is already in the map goes to the exit
  selection, any other node is entered in the map.
\<close>

fun bind_nodes :: "string list \<Rightarrow> nat \<Rightarrow> (string \<rightharpoonup> nat) \<Rightarrow> (string \<rightharpoonup> nat) \<times> bool list" where
  "bind_nodes [] i m = (m, [])"
| "bind_nodes (k # ks) i m =
     (if m k \<noteq> None then (let (m', ex) = bind_nodes ks (Suc i) m in (m', True # ex))
      else (let (m', ex) = bind_nodes ks (Suc i) (m(k \<mapsto> i)) in (m', False # ex)))"

text \<open>
  Loop 2, over the data: a datum whose key is in the map takes that node (update), the
  datum is bound to the node and the key is deleted; any other datum goes to the enter
  selection (\<open>None\<close> in the result).
\<close>

fun bind_data :: "AnnotatedStation list \<Rightarrow> (string \<rightharpoonup> nat) \<Rightarrow> marker list
                    \<Rightarrow> nat option list \<times> (string \<rightharpoonup> nat) \<times> marker list" where
  "bind_data [] m g = ([], m, g)"
| "bind_data (d # ds) m g =
     (case m (short_name d) of
        Some i \<Rightarrow>
          (let (upd, m', g') = bind_data ds (m(short_name d := None)) (g[i := (g ! i)\<lparr>datum := d\<rparr>])
           in (Some i # upd, m', g'))
      | None \<Rightarrow>
          (let (upd, m', g') = bind_data ds m g in (None # upd, m', g')))"

text \<open>Loop 3, over the group: a node that is still in the map goes to the exit selection.\<close>

fun bind_rest :: "string list \<Rightarrow> nat \<Rightarrow> (string \<rightharpoonup> nat) \<Rightarrow> bool list" where
  "bind_rest [] i m = []"
| "bind_rest (k # ks) i m = (m k = Some i) # bind_rest ks (Suc i) m"

text \<open>
  The result of the bind: for every datum its update node if it has one, for every node
  of the group whether it exits, and the group with the data rebound.
\<close>

definition bindKey :: "marker list \<Rightarrow> AnnotatedStation list
                         \<Rightarrow> nat option list \<times> bool list \<times> marker list" where
  "bindKey grp data =
     (let keyValues = map (\<lambda>node. short_name (datum node)) grp;
          (m1, dup) = bind_nodes keyValues 0 Map.empty;
          (upd, m2, grp') = bind_data data m1 grp;
          rest = bind_rest keyValues 0 m2
      in (upd, map (\<lambda>(a, b). a \<or> b) (zip dup rest), grp'))"

text \<open>
  The document while one render runs: a circle of the old group with its index, or a
  circle made by this render.
\<close>

datatype tag = Old nat | New

text \<open>
  An entering circle is inserted before the update node of the next datum that has one,
  and at the end when there is none. That update node is a circle of the old group, and
  the old circles stay in the document until the exit selection is removed, so the search
  of \<open>insert_before\<close> always finds it.
\<close>

fun next_update :: "nat option list \<Rightarrow> nat option" where
  "next_update [] = None"
| "next_update (Some i # upd) = Some i"
| "next_update (None # upd) = next_update upd"

fun insert_before :: "nat option \<Rightarrow> tag \<times> marker \<Rightarrow> (tag \<times> marker) list \<Rightarrow> (tag \<times> marker) list" where
  "insert_before None e doc = doc @ [e]"
| "insert_before (Some i) e [] = [e]"
| "insert_before (Some i) e (x # doc) =
     (if fst x = Old i then e # x # doc else x # insert_before (Some i) e doc)"

fun append_enter :: "nat option list \<Rightarrow> AnnotatedStation list \<Rightarrow> (tag \<times> marker) list
                       \<Rightarrow> (tag \<times> marker) list" where
  "append_enter (None # upd) (d # ds) doc =
     append_enter upd ds (insert_before (next_update upd) (New, new_circle d) doc)"
| "append_enter (Some i # upd) (d # ds) doc = append_enter upd ds doc"
| "append_enter upd ds doc = doc"

text \<open>
  What the render does to every circle of the merged selection: radius and flow style
  from the datum, the first \<open>title\<close> child removed, a new \<open>title\<close> appended.
\<close>

definition set_attrs :: "sqrt_scale \<Rightarrow> marker \<Rightarrow> marker" where
  "set_attrs rs c = c\<lparr>attr_r := Some (scale_apply rs (real (totalTraffic (datum c)))),
                      departure_ratio := Some (departure_ratio_of (datum c))\<rparr>"

definition remove_title :: "marker \<Rightarrow> marker" where
  "remove_title c = c\<lparr>titles := drop 1 (titles c)\<rparr>"

definition append_title :: "marker \<Rightarrow> marker" where
  "append_title c = c\<lparr>titles := titles c @ [tooltip (datum c)]\<rparr>"

definition is_exit :: "bool list \<Rightarrow> tag \<Rightarrow> bool" where
  "is_exit ex t = (case t of Old i \<Rightarrow> ex ! i | New \<Rightarrow> False)"

definition on_merged :: "bool list \<Rightarrow> (marker \<Rightarrow> marker) \<Rightarrow> (tag \<times> marker) list \<Rightarrow> (tag \<times> marker) list" where
  "on_merged ex f doc = map (\<lambda>(t, c). if is_exit ex t then (t, c) else (t, f c)) doc"

text \<open>
  The join, the enter, the merged update and the exit of \<open>updateScatterPlot\<close>. The result
  is the new list of circles, the data of the circles created, and the circles removed.
\<close>

definition reconcile :: "sqrt_scale \<Rightarrow> marker list \<Rightarrow> AnnotatedStation list
                           \<Rightarrow> marker list \<times> AnnotatedStation list \<times> marker list" where
  "reconcile rs grp data =
     (let (upd, ex, grp') = bindKey grp data;
          doc0 = zip (map Old [0 ..< length grp']) grp';
          doc1 = append_enter upd data doc0;
          doc2 = on_merged ex (set_attrs rs) doc1;
          doc3 = on_merged ex remove_title doc2;
          doc4 = on_merged ex append_title doc3;
          doc5 = filter (\<lambda>(t, c). \<not> is_exit ex t) doc4
      in (map snd doc5,
          map snd (filter (\<lambda>(u, d). u = None) (zip upd data)),
          map snd (filter (\<lambda>(t, c). is_exit ex t) doc4)))"

subsection \<open>The state of the page and the two entry points\<close>

text \<open>
  The globals of the script and the three elements it looks up. An element that the page
  does not have is \<open>None\<close>. The slider is read through \<open>Number(timeSlider.value)\<close>, and
  \<open>timeSlider\<close> holds that number; \<open>selectedTimeEl\<close> holds the text content of its
  element and \<open>anyTimeLabel\<close> the \<open>display\<close> style of its element. \<open>svg_circles\<close> is
  the list of the circle elements of the overlay, in document order. The global
  \<open>circles\<close> is only assigned, never read, and is left out.
\<close>

record state =
  stations :: "Station list"
  trips :: "Trip list"
  timeFilter :: jsnum
  radiusScale :: "sqrt_scale option"
  svg_circles :: "marker list"
  timeSlider :: "jsnum option"
  selectedTimeEl :: "string option"
  anyTimeLabel :: "string option"

text \<open>Writing a property of an element that is missing throws; the state is as it was then.\<close>

datatype error = TypeError state

definition final_state :: "error + state \<Rightarrow> state" where
  "final_state r = (case r of Inl (TypeError st) \<Rightarrow> st | Inr st \<Rightarrow> st)"

definition init_state :: "jsnum option \<Rightarrow> string option \<Rightarrow> string option \<Rightarrow> state" where
  "init_state slider sel anyt =
     \<lparr>stations = [], trips = [], timeFilter = Num (- 1), radiusScale = None, svg_circles = [],
      timeSlider = slider, selectedTimeEl = sel, anyTimeLabel = anyt\<rparr>"

definition updateScatterPlot :: "jsnum \<Rightarrow> state \<Rightarrow> state" where
  "updateScatterPlot timeFilterValue st =
     (let filteredTrips = filterTripsByTime (trips st) timeFilterValue;
          stationsWithTraffic = computeStationTraffic (stations st) filteredTrips;
          maxTraffic = (case d3_max stationsWithTraffic totalTraffic of
                          None \<Rightarrow> 1 | Some m \<Rightarrow> if m = 0 then 1 else m);
          rs1 = (case radiusScale st of
                   None \<Rightarrow> scaleSqrt\<lparr>s_domain := (0, real maxTraffic), s_range := (0, 25)\<rparr>
                 | Some rs \<Rightarrow> rs\<lparr>s_domain := (0, real maxTraffic)\<rparr>);
          rs2 = rs1\<lparr>s_range := (if js_strict_eq timeFilterValue (Num (- 1)) then (0, 25)
                                  else (3, 50))\<rparr>;
          (circles, created, removed) = reconcile rs2 (svg_circles st) stationsWithTraffic
      in st\<lparr>radiusScale := Some rs2, svg_circles := circles\<rparr>)"

definition updateTimeDisplay :: "state \<Rightarrow> error + state" where
  "updateTimeDisplay st =
     (case timeSlider st of
        None \<Rightarrow> Inr st
      | Some v \<Rightarrow>
          (let st1 = st\<lparr>timeFilter := v\<rparr>;
               unfiltered = js_strict_eq (timeFilter st1) (Num (- 1))
           in case selectedTimeEl st1 of
                None \<Rightarrow> Inl (TypeError st1)
              | Some _ \<Rightarrow>
                  (let st2 = st1\<lparr>selectedTimeEl :=
                                   Some (if unfiltered then [] else formatTime (timeFilter st1))\<rparr>
                   in case anyTimeLabel st2 of
                        None \<Rightarrow> Inl (TypeError st2)
                      | Some _ \<Rightarrow>
                          (let st3 = st2\<lparr>anyTimeLabel :=
                                           Some (if unfiltered then ''inline'' else ''none'')\<rparr>
                           in if stations st3 = [] \<or> trips st3 = [] then Inr st3
                              else Inr (updateScatterPlot (timeFilter st3) st3)))))"

text \<open>
  The \<open>input\<close> event of the slider: the listener is registered only when the page has the
  slider, and it runs with the slider at its new position.
\<close>

definition cursor_change :: "jsnum \<Rightarrow> state \<Rightarrow> error + state" where
  "cursor_change v st =
     (case timeSlider st of
        None \<Rightarrow> Inr st
      | Some _ \<Rightarrow> updateTimeDisplay (st\<lparr>timeSlider := Some v\<rparr>))"

text \<open>The cursor of the specification: the sentinel \<open>-1\<close> or a minute of the day.\<close>

fun cursor_ok :: "jsnum \<Rightarrow> bool" where
  "cursor_ok NaN = False"
| "cursor_ok (Num n) = (n = - 1 \<or> (0 \<le> n \<and> n \<le> 1439))"

subsection \<open>Loading and the events of the page\<close>

text \<open>
  The \<open>load\<close> handler of the map awaits the station feed, then the trip feed, and returns
  at the first failure. Its progress is the phase; the events are the slider input and the
  completion or failure of a fetch. After the trips have arrived the handler renders once
  with the current cursor and calls \<open>updateTimeDisplay\<close>. An exception ends the handler
  that threw it and leaves the state as it was at that moment.
\<close>

datatype load_phase = Loading_stations | Loading_trips | Loaded | Load_failed

datatype event = Cursor_change jsnum | Stations_loaded "Station list" | Trips_loaded "Trip list"
  | Load_error

fun step :: "load_phase \<times> state \<Rightarrow> event \<Rightarrow> load_phase \<times> state" where
  "step (ph, st) (Cursor_change v) = (ph, final_state (cursor_change v st))"
| "step (ph, st) (Stations_loaded ss) =
     (if ph = Loading_stations then (Loading_trips, st\<lparr>stations := ss\<rparr>) else (ph, st))"
| "step (ph, st) (Trips_loaded ts) =
     (if ph = Loading_trips then
        (let st1 = st\<lparr>trips := ts\<rparr>;
             st2 = updateScatterPlot (timeFilter st1) st1
         in (Loaded, final_state (updateTimeDisplay st2)))
      else (ph, st))"
| "step (ph, st) Load_error =
     (if ph = Loading_stations \<or> ph = Loading_trips then (Load_failed, st) else (ph, st))"

definition run :: "event list \<Rightarrow> state \<Rightarrow> load_phase \<times> state" where
  "run evs st = foldl step (Loading_stations, st) evs"

text \<open>The update nodes of a bind, in the order of the data.\<close>

fun somes :: "'a option list \<Rightarrow> 'a list" where
  "somes [] = []"
| "somes (None # us) = somes us"
| "somes (Some i # us) = i # somes us"

text \<open>The whole effect of a render on a circle of the merged selection.\<close>

definition restyle :: "sqrt_scale \<Rightarrow> marker \<Rightarrow> marker" where
  "restyle rs c = append_title (remove_title (set_attrs rs c))"

text \<open>Every circle has one title, the tooltip of its datum.\<close>

definition titled :: "state \<Rightarrow> bool" where
  "titled st = (\<forall>c \<in> set (svg_circles st). titles c = [tooltip (datum c)])"

text \<open>The upper end of the radius domain, in the words of the specification.\<close>

definition max_or_1 :: "AnnotatedStation list \<Rightarrow> nat" where
  "max_or_1 A = (if A = [] then 1 else if Max (totalTraffic ` set A) = 0 then 1 else Max (totalTraffic ` set A))"

subsection \<open>Example data\<close>

definition at_time :: "int \<Rightarrow> int \<Rightarrow> Date" where
  "at_time h m = Date (h * msPerHour + m * msPerMinute)"

definition stA :: Station where
  "stA = \<lparr>short_name = ''A'', lat = 42, lon = - 71\<rparr>"

definition stB :: Station where
  "stB = \<lparr>short_name = ''B'', lat = 421 / 10, lon = - 711 / 10\<rparr>"

definition stC :: Station where
  "stC = \<lparr>short_name = ''C'', lat = 422 / 10, lon = - 712 / 10\<rparr>"

definition trip1 :: Trip where
  "trip1 = \<lparr>start_station_id = ''A'', end_station_id = ''B'',
            started_at = at_time 8 0, ended_at = at_time 8 10\<rparr>"

definition trip2 :: Trip where
  "trip2 = \<lparr>start_station_id = ''B'', end_station_id = ''A'',
            started_at = at_time 20 0, ended_at = at_time 20 5\<rparr>"

definition trip3 :: Trip where
  "trip3 = \<lparr>start_station_id = ''A'', end_station_id = ''X'',
            started_at = at_time 23 50, ended_at = at_time 23 55\<rparr>"

definition annot :: "string \<Rightarrow> nat \<Rightarrow> nat \<Rightarrow> AnnotatedStation" where
  "annot k a d = \<lparr>short_name = k, lat = 42, lon = - 71, arrivals = a, departures = d, totalTraffic = a + d\<rparr>"

definition page0 :: state where
  "page0 = init_state (Some (Num (- 1))) (Some []) (Some ''inline'')"

definition A0 :: "AnnotatedStation list" where
  "A0 = [annot ''A'' 0 1, annot ''B'' 1 0]"

definition st0 :: state where
  "st0 = page0\<lparr>stations := [stA, stB], trips := [trip1, trip2]\<rparr>"

definition st4 :: state where
  "st4 = page0\<lparr>stations := [stA, stB], trips := [trip1, trip1, trip1, trip1]\<rparr>"

section \<open>Properties\<close>

subsection \<open>Grouping and counting\<close>

lemma map_of_add_to_group:
  "map_of (add_to_group k v groups) k' =
     (if k' = k then Some ((case map_of groups k of None \<Rightarrow> [] | Some vs \<Rightarrow> vs) @ [v])
      else map_of groups k')"
  by (induction groups) auto

lemma map_of_d3_group:
  "map_of (d3_group vals key) k =
     (if \<exists>v \<in> set vals. key v = k then Some (filter (\<lambda>v. key v = k) vals) else None)"
proof (induction vals rule: rev_induct)
  case Nil
  show ?case by (simp add: d3_group_def)
next
  case (snoc x xs)
  have step: "d3_group (xs @ [x]) key = add_to_group (key x) x (d3_group xs key)"
    by (simp add: d3_group_def)
  show ?case
    unfolding step map_of_add_to_group using snoc.IH
    by (auto simp: filter_empty_conv)
qed

lemma map_of_rollup:
  "map_of (rollup vals reduce key) k = map_option reduce (map_of (d3_group vals key) k)"
  unfolding rollup_def by (induction "d3_group vals key" arbitrary: vals) (auto simp: map_of_map)

lemma get_or_zero_rollup:
  "get_or_zero (rollup vals length key) k = length (filter (\<lambda>v. key v = k) vals)"
  by (simp add: get_or_zero_def map_of_rollup map_of_d3_group filter_empty_conv)

lemma computeStationTraffic_eq:
  "computeStationTraffic S T =
     map (\<lambda>s. \<lparr>short_name = short_name s, lat = lat s, lon = lon s,
               arrivals = length (filter (\<lambda>t. end_station_id t = short_name s) T),
               departures = length (filter (\<lambda>t. start_station_id t = short_name s) T),
               totalTraffic = length (filter (\<lambda>t. end_station_id t = short_name s) T)
                            + length (filter (\<lambda>t. start_station_id t = short_name s) T)\<rparr>) S"
  by (simp add: computeStationTraffic_def Let_def get_or_zero_rollup)

lemma map_station_of: "map station_of (computeStationTraffic S T) = S"
  unfolding computeStationTraffic_eq by (induction S) (simp_all add: station_of_def)

lemma map_short_name: "map short_name (computeStationTraffic S T) = map short_name S"
  by (simp add: computeStationTraffic_eq o_def)

subsection \<open>The aggregator emits one entry per station\<close>

text \<open>
  Claim C1. For every station list \<open>S\<close> and trip list \<open>T\<close> the aggregator returns
  \<open>length S\<close> entries; the entry at position \<open>i\<close> is the station \<open>S ! i\<close> with its counts, so
  the stations of the output are those of \<open>S\<close> in the same order and the output repeats a
  key only where \<open>S\<close> does; arrivals count the trips ending at the station and departures
  those starting there, each 0 for a station that no trip of \<open>T\<close> names.
\<close>

theorem computeStationTraffic_totality:
  "length (computeStationTraffic S T) = length S \<and>
   map station_of (computeStationTraffic S T) = S \<and>
   distinct (map short_name (computeStationTraffic S T)) = distinct (map short_name S) \<and>
   (\<forall>i < length S.
      arrivals (computeStationTraffic S T ! i) =
        length (filter (\<lambda>t. end_station_id t = short_name (S ! i)) T) \<and>
      departures (computeStationTraffic S T ! i) =
        length (filter (\<lambda>t. start_station_id t = short_name (S ! i)) T) \<and>
      totalTraffic (computeStationTraffic S T ! i) =
        arrivals (computeStationTraffic S T ! i) + departures (computeStationTraffic S T ! i) \<and>
      (short_name (S ! i) \<notin> end_station_id ` set T \<longrightarrow>
         arrivals (computeStationTraffic S T ! i) = 0) \<and>
      (short_name (S ! i) \<notin> start_station_id ` set T \<longrightarrow>
         departures (computeStationTraffic S T ! i) = 0))"
proof -
  have len: "length (computeStationTraffic S T) = length S"
    by (simp add: computeStationTraffic_eq)
  have counts: "\<forall>i < length S.
      arrivals (computeStationTraffic S T ! i) =
        length (filter (\<lambda>t. end_station_id t = short_name (S ! i)) T) \<and>
      departures (computeStationTraffic S T ! i) =
        length (filter (\<lambda>t. start_station_id t = short_name (S ! i)) T) \<and>
      totalTraffic (computeStationTraffic S T ! i) =
        arrivals (computeStationTraffic S T ! i) + departures (computeStationTraffic S T ! i)"
    by (simp add: computeStationTraffic_eq)
  have zero: "\<And>f k. k \<notin> f ` set T \<Longrightarrow> length (filter (\<lambda>t. f t = k) T) = 0"
    by (auto simp: filter_empty_conv)
  show ?thesis
    using len counts zero map_station_of [of S T] map_short_name [of S T] by auto
qed

theorem computeStationTraffic_totality_witness:
  "(2::nat) < length [stA, stB, stC] \<and>
   short_name ([stA, stB, stC] ! 2) \<notin> end_station_id ` set [trip1, trip2] \<and>
   short_name ([stA, stB, stC] ! 2) \<notin> start_station_id ` set [trip1, trip2] \<and>
   length (computeStationTraffic [stA, stB, stC] [trip1, trip2]) = 3 \<and>
   arrivals (computeStationTraffic [stA, stB, stC] [trip1, trip2] ! 2) = 0 \<and>
   departures (computeStationTraffic [stA, stB, stC] [trip1, trip2] ! 2) = 0"
  using computeStationTraffic_totality [of "[stA, stB, stC]" "[trip1, trip2]"]
  by (simp add: stA_def stB_def stC_def trip1_def trip2_def)

subsection \<open>Conservation of the counts\<close>

lemma sum_counts_distinct:
  "distinct ks \<Longrightarrow>
     sum_list (map (\<lambda>k. length (filter (\<lambda>t. f t = k) T)) ks) = length (filter (\<lambda>t. f t \<in> set ks) T)"
proof (induction T)
  case Nil
  show ?case by simp
next
  case (Cons t T)
  have one: "sum_list (map (\<lambda>k. if f t = k then 1 else 0) ks) = (if f t \<in> set ks then (1::nat) else 0)"
    using Cons.prems by (induction ks) auto
  have "sum_list (map (\<lambda>k. length (filter (\<lambda>t. f t = k) (t # T))) ks)
      = sum_list (map (\<lambda>k. (if f t = k then 1 else 0) + length (filter (\<lambda>t. f t = k) T)) ks)"
    by (intro arg_cong [where f = sum_list] map_cong) auto
  also have "\<dots> = sum_list (map (\<lambda>k. if f t = k then 1 else 0) ks)
                 + sum_list (map (\<lambda>k. length (filter (\<lambda>t. f t = k) T)) ks)"
    by (simp add: sum_list_addf)
  finally show ?case using one Cons by simp
qed

lemma endpoint_count:
  "length (filter P T) + length (filter Q T)
     = 2 * length (filter (\<lambda>t. P t \<and> Q t) T) + length (filter (\<lambda>t. P t \<noteq> Q t) T)"
  by (induction T) auto

lemma sum_totalTraffic:
  "sum_list (map totalTraffic (computeStationTraffic S T))
     = sum_list (map (\<lambda>k. length (filter (\<lambda>t. end_station_id t = k) T)) (map short_name S))
     + sum_list (map (\<lambda>k. length (filter (\<lambda>t. start_station_id t = k) T)) (map short_name S))"
  by (simp add: computeStationTraffic_eq o_def sum_list_addf)

text \<open>
  Claim C2. When the keys of the station list are pairwise distinct, the total traffic
  summed over the output is twice the number of trips with both endpoints among the keys
  plus the number of trips with exactly one endpoint among them. The keys of the output
  are exactly the keys of the station list, so an id that only trips mention has no entry.
\<close>

theorem computeStationTraffic_conservation:
  assumes "distinct (map short_name S)"
  shows "sum_list (map totalTraffic (computeStationTraffic S T)) =
           2 * length (filter (\<lambda>t. start_station_id t \<in> short_name ` set S \<and>
                                    end_station_id t \<in> short_name ` set S) T)
             + length (filter (\<lambda>t. (start_station_id t \<in> short_name ` set S) \<noteq>
                                    (end_station_id t \<in> short_name ` set S)) T)
         \<and> short_name ` set (computeStationTraffic S T) = short_name ` set S"
proof -
  let ?K = "map short_name S"
  have "sum_list (map totalTraffic (computeStationTraffic S T))
      = length (filter (\<lambda>t. end_station_id t \<in> set ?K) T)
      + length (filter (\<lambda>t. start_station_id t \<in> set ?K) T)"
    unfolding sum_totalTraffic using assms by (simp only: sum_counts_distinct)
  also have "\<dots> = 2 * length (filter (\<lambda>t. start_station_id t \<in> set ?K \<and> end_station_id t \<in> set ?K) T)
                 + length (filter (\<lambda>t. (start_station_id t \<in> set ?K) \<noteq> (end_station_id t \<in> set ?K)) T)"
    using endpoint_count [of "\<lambda>t. start_station_id t \<in> set ?K" T "\<lambda>t. end_station_id t \<in> set ?K"]
    by simp
  finally have sum: "sum_list (map totalTraffic (computeStationTraffic S T)) =
      2 * length (filter (\<lambda>t. start_station_id t \<in> set ?K \<and> end_station_id t \<in> set ?K) T)
        + length (filter (\<lambda>t. (start_station_id t \<in> set ?K) \<noteq> (end_station_id t \<in> set ?K)) T)" .
  have "set (map short_name (computeStationTraffic S T)) = set ?K"
    by (simp only: map_short_name)
  then have keys: "short_name ` set (computeStationTraffic S T) = short_name ` set S"
    by simp
  show ?thesis using sum keys by simp
qed

theorem computeStationTraffic_conservation_witness:
  "distinct (map short_name [stA, stB]) \<and>
   sum_list (map totalTraffic (computeStationTraffic [stA, stB] [trip1, trip2, trip3])) = 5 \<and>
   short_name ` set (computeStationTraffic [stA, stB] [trip1, trip2, trip3]) = {''A'', ''B''}"
  using computeStationTraffic_conservation [of "[stA, stB]" "[trip1, trip2, trip3]"]
  by (simp add: stA_def stB_def trip1_def trip2_def trip3_def)

subsection \<open>Minutes of the day and the time window\<close>

lemma getHours_range: "getHours d = Num h \<Longrightarrow> 0 \<le> h \<and> h \<le> 23"
  by (cases d) (auto simp: msPerHour_def)

lemma getMinutes_range: "getMinutes d = Num m \<Longrightarrow> 0 \<le> m \<and> m \<le> 59"
  by (cases d) (auto simp: msPerMinute_def)

text \<open>
  Claim C10. For a date whose hour \<open>h\<close> and minute \<open>m\<close> are numbers,
  \<open>minutesSinceMidnight\<close> is \<open>h * 60 + m\<close>, between 0 and 1439; so for a cursor between 0
  and 1439 the absolute difference that the filter computes is a number, at most 1439.
\<close>

theorem minutesSinceMidnight_range:
  assumes "getHours d = Num h" and "getMinutes d = Num m"
  shows "minutesSinceMidnight d = Num (h * 60 + m) \<and> 0 \<le> h * 60 + m \<and> h * 60 + m \<le> 1439 \<and>
         (0 \<le> c \<and> c \<le> 1439 \<longrightarrow>
            js_abs (js_sub (minutesSinceMidnight d) (Num c)) = Num \<bar>h * 60 + m - c\<bar> \<and>
            \<bar>h * 60 + m - c\<bar> \<le> 1439)"
  using assms getHours_range [OF assms(1)] getMinutes_range [OF assms(2)]
  by (auto simp: minutesSinceMidnight_def)

theorem minutesSinceMidnight_range_witness:
  "getHours (at_time 23 50) = Num 23 \<and> getMinutes (at_time 23 50) = Num 50 \<and>
   minutesSinceMidnight (at_time 23 50) = Num 1430 \<and> (0::int) \<le> 5 \<and> (5::int) \<le> 1439 \<and>
   js_abs (js_sub (minutesSinceMidnight (at_time 23 50)) (Num 5)) = Num 1425"
  using minutesSinceMidnight_range [of "at_time 23 50" 23 50 5]
  by (simp add: at_time_def msPerHour_def msPerMinute_def)

lemma within_iff:
  "js_le (js_abs (js_sub x (Num c))) (Num 60) = (\<exists>s. x = Num s \<and> \<bar>s - c\<bar> \<le> 60)"
  by (cases x) auto

text \<open>
  Claim C3. With the sentinel \<open>-1\<close> the filter returns the trip list itself. With a cursor
  \<open>c\<close> between 0 and 1439 it keeps, in order, exactly the trips whose start minute or end
  minute is a number at distance at most 60 from \<open>c\<close>; the distance is the plain absolute
  difference, so a trip from 23:50 to 23:55 is not kept for the cursor 00:05 (the witness).
\<close>

theorem filterTripsByTime_window:
  "filterTripsByTime T (Num (- 1)) = T \<and>
   (0 \<le> c \<and> c \<le> 1439 \<longrightarrow>
      filterTripsByTime T (Num c) =
        filter (\<lambda>trip. (\<exists>s. minutesSinceMidnight (started_at trip) = Num s \<and> \<bar>s - c\<bar> \<le> 60) \<or>
                       (\<exists>e. minutesSinceMidnight (ended_at trip) = Num e \<and> \<bar>e - c\<bar> \<le> 60)) T)"
  by (simp add: filterTripsByTime_def Let_def within_iff)

theorem filterTripsByTime_window_witness:
  "(0::int) \<le> 5 \<and> (5::int) \<le> 1439 \<and>
   minutesSinceMidnight (started_at trip3) = Num 1430 \<and>
   minutesSinceMidnight (ended_at trip3) = Num 1435 \<and>
   filterTripsByTime [trip1, trip3] (Num 5) = [] \<and>
   filterTripsByTime [trip1, trip3] (Num 510) = [trip1]"
  using filterTripsByTime_window [of "[trip1, trip3]" 5]
    filterTripsByTime_window [of "[trip1, trip3]" 510]
  by (simp add: trip1_def trip3_def at_time_def msPerHour_def msPerMinute_def
      minutesSinceMidnight_def)

subsection \<open>The flow buckets and the radius scale\<close>

lemma upt_0_2: "[0 ..< 2] = [0, Suc 0]"
  by (simp add: numeral_2_eq_2)

lemma stationFlow_thresholds:
  "q_thresholds \<lparr>q_x0 = 0, q_x1 = 1, q_range = [0, 1 / 2, 1]\<rparr> = [1 / 3, 2 / 3]"
  by (simp add: q_thresholds_def upt_0_2)

lemma bisect_right_done: "bisect_right a x lo lo = lo"
  by (subst bisect_right.simps) simp

lemma bisect_one:
  "bisect_right [a, b] x 0 (Suc 0) = (if a \<le> x then 1 else 0)"
  by (subst bisect_right.simps) (simp add: bisect_right_done)

lemma bisect_two:
  "bisect_right [a, b] x 0 (Suc (Suc 0)) = (if b \<le> x then 2 else if a \<le> x then 1 else 0)"
  by (subst bisect_right.simps) (simp add: bisect_right_done bisect_one)

lemma stationFlow_eq:
  "stationFlow x = (if x < 1 / 3 then 0 else if x < 2 / 3 then 1 / 2 else 1)"
  by (simp add: stationFlow_def quantize_apply_def stationFlow_thresholds bisect_two)

text \<open>
  Claim C4. The thresholds of the flow scale are 1/3 and 2/3. A station without traffic
  gets the middle level 1/2; any other station gets the level of
  \<open>ratio = departures / totalTraffic\<close>: 0 below 1/3, 1/2 from 1/3 up to but not
  including 2/3, and 1 from 2/3 on, so each threshold belongs to the bucket above it. The
  level is always one of 0, 1/2 and 1, and the ratio lies between 0 and 1 when the total
  is the sum of arrivals and departures.
\<close>

theorem departure_ratio_buckets:
  "q_thresholds \<lparr>q_x0 = 0, q_x1 = 1, q_range = [0, 1 / 2, 1]\<rparr> = [1 / 3, 2 / 3] \<and>
   departure_ratio_of d =
     (if totalTraffic d = 0 then 1 / 2
      else if of_nat (departures d) / of_nat (totalTraffic d) < (1 / 3 :: rat) then 0
      else if of_nat (departures d) / of_nat (totalTraffic d) < (2 / 3 :: rat) then 1 / 2
      else 1) \<and>
   departure_ratio_of d \<in> {0, 1 / 2, 1} \<and>
   (totalTraffic d = arrivals d + departures d \<and> totalTraffic d \<noteq> 0 \<longrightarrow>
      0 \<le> (of_nat (departures d) / of_nat (totalTraffic d) :: rat) \<and>
      (of_nat (departures d) / of_nat (totalTraffic d) :: rat) \<le> 1)"
  by (simp add: departure_ratio_of_def stationFlow_eq stationFlow_thresholds Let_def)

theorem departure_ratio_buckets_witness:
  "totalTraffic (annot ''A'' 2 1) = arrivals (annot ''A'' 2 1) + departures (annot ''A'' 2 1) \<and>
   totalTraffic (annot ''A'' 2 1) \<noteq> 0 \<and>
   (of_nat (departures (annot ''A'' 2 1)) / of_nat (totalTraffic (annot ''A'' 2 1)) :: rat) = 1 / 3 \<and>
   departure_ratio_of (annot ''A'' 2 1) = 1 / 2 \<and>
   departure_ratio_of (annot ''A'' 1 2) = 1 \<and>
   departure_ratio_of (annot ''A'' 4 1) = 0 \<and>
   departure_ratio_of (annot ''A'' 0 0) = 1 / 2"
  using departure_ratio_buckets [of "annot ''A'' 2 1"] departure_ratio_buckets [of "annot ''A'' 1 2"]
    departure_ratio_buckets [of "annot ''A'' 4 1"] departure_ratio_buckets [of "annot ''A'' 0 0"]
  by (simp add: annot_def)

lemma d3_max_from_Some: "d3_max_from (Some m) vs = Some (fold max vs m)"
proof (induction vs arbitrary: m)
  case Nil
  show ?case by simp
next
  case (Cons v vs)
  have "(if m < v then Some v else Some m) = Some (max v m)"
    by (simp add: max_def)
  then show ?case by (simp add: Cons.IH)
qed

lemma d3_max_eq:
  "d3_max vals f = (if vals = [] then None else Some (Max (f ` set vals)))"
proof (cases vals)
  case Nil
  then show ?thesis by (simp add: d3_max_def)
next
  case (Cons v vs)
  have "d3_max (v # vs) f = Some (fold max (map f vs) (f v))"
    by (simp add: d3_max_def d3_max_from_Some)
  also have "fold max (map f vs) (f v) = Max (set (f v # map f vs))"
    by (simp only: Max.set_eq_fold)
  finally show ?thesis using Cons by simp
qed

lemma radiusScale_updateScatterPlot:
  "radiusScale (updateScatterPlot tfv st) =
     Some \<lparr>s_domain = (0, real (max_or_1 (computeStationTraffic (stations st) (filterTripsByTime (trips st) tfv)))),
           s_range = (if tfv = Num (- 1) then (0, 25) else (3, 50))\<rparr>"
proof -
  have eq: "js_strict_eq tfv (Num (- 1)) = (tfv = Num (- 1))"
    by (cases tfv) auto
  show ?thesis
    by (simp add: updateScatterPlot_def Let_def d3_max_eq max_or_1_def eq scaleSqrt_def
        split_beta split: option.split)
qed

lemma scale_apply_eq:
  assumes "0 < m" "0 \<le> x"
  shows "scale_apply \<lparr>s_domain = (0, m), s_range = (r0, r1)\<rparr> x = r0 + (r1 - r0) * (sqrt x / sqrt m)"
proof -
  have lin: "r0 * (1 - t) + r1 * t = r0 + (r1 - r0) * t" for t :: real
    by (simp add: algebra_simps)
  have "scale_apply \<lparr>s_domain = (0, m), s_range = (r0, r1)\<rparr> x
          = r0 * (1 - sqrt x / sqrt m) + r1 * (sqrt x / sqrt m)"
    using assms by (simp add: scale_apply_def transformSqrt_def normalize_def interpolateNumber_def Let_def)
  then show ?thesis by (simp only: lin)
qed

lemma scale_apply_mono:
  assumes "0 < m" "0 \<le> x" "x \<le> y" "r0 \<le> r1"
  shows "scale_apply \<lparr>s_domain = (0, m), s_range = (r0, r1)\<rparr> x \<le> scale_apply \<lparr>s_domain = (0, m), s_range = (r0, r1)\<rparr> y"
proof -
  have "sqrt x / sqrt m \<le> sqrt y / sqrt m"
    using assms by (simp add: divide_right_mono)
  then have "(r1 - r0) * (sqrt x / sqrt m) \<le> (r1 - r0) * (sqrt y / sqrt m)"
    using assms(4) by (intro mult_left_mono) simp_all
  then show ?thesis using assms by (simp add: scale_apply_eq)
qed

lemma max_or_1_pos: "0 < max_or_1 A"
  by (simp add: max_or_1_def)


lemma scale_apply_shape:
  assumes "0 < m" "0 \<le> x"
  shows "scale_apply \<lparr>s_domain = (0, m), s_range = (r0, r1)\<rparr> x = r0 + (r1 - r0) * sqrt (x / m)"
  using scale_apply_eq [OF assms, of r0 r1] by (simp add: real_sqrt_divide)

lemma scale_apply_all:
  assumes m: "0 < m" and le: "r0 \<le> r1"
    and sc: "sc = \<lparr>s_domain = (0, m), s_range = (r0, r1)\<rparr>"
  shows "scale_apply sc 0 = fst (s_range sc) \<and>
         (\<forall>x y :: nat. x \<le> y \<longrightarrow> scale_apply sc (real x) \<le> scale_apply sc (real y)) \<and>
         (\<forall>x :: nat. scale_apply sc (real x) =
            fst (s_range sc) + (snd (s_range sc) - fst (s_range sc)) * sqrt (real x / m)) \<and>
         scale_apply sc m = snd (s_range sc)"
proof (intro conjI allI impI)
  show "scale_apply sc 0 = fst (s_range sc)"
    unfolding sc using scale_apply_shape [OF m, of 0 r0 r1] by simp
next
  fix x y :: nat assume "x \<le> y"
  then show "scale_apply sc (real x) \<le> scale_apply sc (real y)"
    unfolding sc using scale_apply_mono [OF m, of "real x" "real y" r0 r1] le by simp
next
  fix x :: nat
  show "scale_apply sc (real x) =
          fst (s_range sc) + (snd (s_range sc) - fst (s_range sc)) * sqrt (real x / m)"
    unfolding sc using scale_apply_shape [OF m, of "real x" r0 r1] by simp
next
  show "scale_apply sc m = snd (s_range sc)"
    unfolding sc using scale_apply_shape [OF m, of m r0 r1] m by simp
qed

text \<open>
  Claim C5. After every render the radius scale has the domain from 0 to \<open>m\<close>, where
  \<open>m\<close> is the greatest total traffic of the annotated stations, and 1 when there is no
  station or the greatest total is 0; its range is 0 to 25 for the sentinel cursor and 3 to
  50 for any other cursor. It is a square-root scale: a count \<open>x\<close> gets the radius
  \<open>r0 + (r1 - r0) * sqrt (x / m)\<close>, where \<open>r0\<close> and \<open>r1\<close> are the ends of the range. So
  the scale sends 0 to the lower end of the range and \<open>m\<close> to the upper end, and it is
  non-decreasing on the counts.
\<close>

theorem radiusScale_render:
  "(let A = computeStationTraffic (stations st) (filterTripsByTime (trips st) tfv);
        m = (if A = [] then 1 else if Max (totalTraffic ` set A) = 0 then 1
             else Max (totalTraffic ` set A));
        sc = \<lparr>s_domain = (0, real m), s_range = (if tfv = Num (- 1) then (0, 25) else (3, 50))\<rparr>
    in radiusScale (updateScatterPlot tfv st) = Some sc \<and>
       scale_apply sc 0 = fst (s_range sc) \<and>
       (\<forall>x y :: nat. x \<le> y \<longrightarrow> scale_apply sc (real x) \<le> scale_apply sc (real y)) \<and>
       (\<forall>x :: nat. scale_apply sc (real x) =
          fst (s_range sc) + (snd (s_range sc) - fst (s_range sc)) * sqrt (real x / real m)) \<and>
       scale_apply sc (real m) = snd (s_range sc))"
proof -
  let ?A = "computeStationTraffic (stations st) (filterTripsByTime (trips st) tfv)"
  have m: "0 < real (max_or_1 ?A)" using max_or_1_pos by simp
  have eq: "(if ?A = [] then 1 else if Max (totalTraffic ` set ?A) = 0 then 1
             else Max (totalTraffic ` set ?A)) = max_or_1 ?A"
    by (simp add: max_or_1_def)
  have r: "radiusScale (updateScatterPlot tfv st) =
      Some \<lparr>s_domain = (0, real (max_or_1 ?A)),
            s_range = (if tfv = Num (- 1) then (0, 25) else (3, 50))\<rparr>"
    by (rule radiusScale_updateScatterPlot)
  show ?thesis
  proof (cases "tfv = Num (- 1)")
    case True
    have rng: "(if tfv = Num (- 1) then (0, 25) else (3, 50)) = (0 :: real, 25 :: real)"
      using True by simp
    have le: "(0 :: real) \<le> 25" by simp
    show ?thesis
      unfolding Let_def eq rng
      by (rule conjI [OF r [unfolded rng] scale_apply_all [OF m le refl]])
  next
    case False
    have rng: "(if tfv = Num (- 1) then (0, 25) else (3, 50)) = (3 :: real, 50 :: real)"
      using False by simp
    have le: "(3 :: real) \<le> 50" by simp
    show ?thesis
      unfolding Let_def eq rng
      by (rule conjI [OF r [unfolded rng] scale_apply_all [OF m le refl]])
  qed
qed

theorem radiusScale_render_witness:
  "radiusScale (updateScatterPlot (Num 480) st4) = Some \<lparr>s_domain = (0, 4), s_range = (3, 50)\<rparr> \<and>
   (1::nat) \<le> 4 \<and>
   scale_apply \<lparr>s_domain = (0, 4), s_range = (3, 50)\<rparr> 0 = 3 \<and>
   scale_apply \<lparr>s_domain = (0, 4), s_range = (3, 50)\<rparr> 1 = 53 / 2 \<and>
   scale_apply \<lparr>s_domain = (0, 4), s_range = (3, 50)\<rparr> 4 = 50 \<and>
   scale_apply \<lparr>s_domain = (0, 4), s_range = (3, 50)\<rparr> 1
     \<le> scale_apply \<lparr>s_domain = (0, 4), s_range = (3, 50)\<rparr> 4"
proof -
  have A: "computeStationTraffic (stations st4) (filterTripsByTime (trips st4) (Num 480))
            = [\<lparr>short_name = ''A'', lat = 42, lon = - 71, arrivals = 0, departures = 4, totalTraffic = 4\<rparr>,
               \<lparr>short_name = ''B'', lat = 421 / 10, lon = - 711 / 10, arrivals = 4, departures = 0, totalTraffic = 4\<rparr>]"
    by (simp add: st4_def page0_def init_state_def computeStationTraffic_eq filterTripsByTime_def
         stA_def stB_def trip1_def minutesSinceMidnight_def at_time_def msPerHour_def msPerMinute_def)
  have q: "sqrt (1 / 4) = 1 / 2"
    by (simp add: real_sqrt_divide)
  have h: "radiusScale (updateScatterPlot (Num 480) st4)
             = Some \<lparr>s_domain = (0, 4), s_range = (3, 50)\<rparr> \<and>
           scale_apply \<lparr>s_domain = (0, 4), s_range = (3, 50)\<rparr> 0 = 3 \<and>
           (\<forall>x y :: nat. x \<le> y \<longrightarrow>
              scale_apply \<lparr>s_domain = (0, 4), s_range = (3, 50)\<rparr> (real x)
                \<le> scale_apply \<lparr>s_domain = (0, 4), s_range = (3, 50)\<rparr> (real y)) \<and>
           (\<forall>x :: nat. scale_apply \<lparr>s_domain = (0, 4), s_range = (3, 50)\<rparr> (real x)
                = 3 + 47 * sqrt (real x / 4)) \<and>
           scale_apply \<lparr>s_domain = (0, 4), s_range = (3, 50)\<rparr> 4 = 50"
    using radiusScale_render [of st4 "Num 480"] unfolding A
    by (simp add: Let_def)
  let ?sc = "\<lparr>s_domain = (0, 4), s_range = (3, 50)\<rparr> :: sqrt_scale"
  from h have r: "radiusScale (updateScatterPlot (Num 480) st4) = Some ?sc"
    and z: "scale_apply ?sc 0 = 3" and t: "scale_apply ?sc 4 = 50"
    and mo: "\<forall>x y :: nat. x \<le> y \<longrightarrow> scale_apply ?sc (real x) \<le> scale_apply ?sc (real y)"
    and sh: "\<forall>x :: nat. scale_apply ?sc (real x) = 3 + 47 * sqrt (real x / 4)"
    by blast+
  have "(1::nat) \<le> 4 \<longrightarrow> scale_apply ?sc (real 1) \<le> scale_apply ?sc (real 4)"
    using mo by blast
  then have mono: "scale_apply ?sc 1 \<le> scale_apply ?sc 4" by simp
  have "scale_apply ?sc (real 1) = 3 + 47 * sqrt (real 1 / 4)"
    using sh by blast
  then have one: "scale_apply ?sc 1 = 53 / 2"
    using q by simp
  have le: "(1::nat) \<le> 4" by simp
  show ?thesis
    by (intro conjI r le z one t mono)
qed

subsection \<open>The cursor and the slider\<close>

text \<open>
  Claim C7, as stated, fails: the handler stores \<open>Number(timeSlider.value)\<close> as it is. At
  the slider position 1440 the cursor becomes 1440, which is neither the sentinel nor a
  minute of the day.
\<close>

theorem cursor_validation_counterexample:
  "\<not> cursor_ok (timeFilter (final_state (cursor_change (Num 1440)
        (init_state (Some (Num (- 1))) (Some []) (Some [])))))"
  by (simp add: cursor_change_def updateTimeDisplay_def init_state_def final_state_def Let_def)

lemma timeFilter_updateScatterPlot: "timeFilter (updateScatterPlot tfv st) = timeFilter st"
  by (simp add: updateScatterPlot_def Let_def split_beta)

lemma timeFilter_updateTimeDisplay:
  "timeSlider st = Some v \<Longrightarrow> timeFilter (final_state (updateTimeDisplay st)) = v"
  by (simp add: updateTimeDisplay_def final_state_def Let_def timeFilter_updateScatterPlot
      split: option.split)

text \<open>
  Claim C7, amended. After a cursor-change notification the cursor is exactly the number
  read from the slider; it is the sentinel or a minute between 0 and 1439 exactly when
  that number is.
\<close>

theorem cursor_change_stores_input:
  assumes "timeSlider st \<noteq> None"
  shows "timeFilter (final_state (cursor_change v st)) = v \<and>
         cursor_ok (timeFilter (final_state (cursor_change v st))) = cursor_ok v"
proof -
  have "timeFilter (final_state (cursor_change v st)) = v"
    using assms timeFilter_updateTimeDisplay [of "st\<lparr>timeSlider := Some v\<rparr>" v]
    by (auto simp: cursor_change_def)
  then show ?thesis by simp
qed

theorem cursor_change_stores_input_witness:
  "timeSlider (init_state (Some (Num (- 1))) (Some []) (Some [])) \<noteq> None \<and>
   timeFilter (final_state (cursor_change (Num 510)
      (init_state (Some (Num (- 1))) (Some []) (Some [])))) = Num 510 \<and>
   cursor_ok (timeFilter (final_state (cursor_change (Num 510)
      (init_state (Some (Num (- 1))) (Some []) (Some [])))))"
  using cursor_change_stores_input [of "init_state (Some (Num (- 1))) (Some []) (Some [])" "Num 510"]
  by (simp add: init_state_def)

lemma updateTimeDisplay_no_data:
  assumes "stations st = [] \<or> trips st = []"
  shows "svg_circles (final_state (updateTimeDisplay st)) = svg_circles st \<and>
         radiusScale (final_state (updateTimeDisplay st)) = radiusScale st \<and>
         stations (final_state (updateTimeDisplay st)) = stations st \<and>
         trips (final_state (updateTimeDisplay st)) = trips st"
  using assms
  by (auto simp: updateTimeDisplay_def final_state_def Let_def split: option.split)

lemma cursor_change_no_data:
  assumes "stations st = [] \<or> trips st = []"
  shows "svg_circles (final_state (cursor_change v st)) = svg_circles st \<and>
         radiusScale (final_state (cursor_change v st)) = radiusScale st \<and>
         stations (final_state (cursor_change v st)) = stations st \<and>
         trips (final_state (cursor_change v st)) = trips st"
proof (cases "timeSlider st")
  case None
  then show ?thesis by (simp add: cursor_change_def final_state_def)
next
  case (Some a)
  then show ?thesis
    using updateTimeDisplay_no_data [of "st\<lparr>timeSlider := Some v\<rparr>"] assms
    by (simp add: cursor_change_def)
qed

lemma cursor_change_labels:
  assumes "stations st = [] \<or> trips st = []" and "timeSlider st \<noteq> None"
    and "selectedTimeEl st \<noteq> None" and "anyTimeLabel st \<noteq> None"
  shows "cursor_change v st =
           Inr (st\<lparr>timeSlider := Some v, timeFilter := v,
                   selectedTimeEl := Some (if v = Num (- 1) then [] else formatTime v),
                   anyTimeLabel := Some (if v = Num (- 1) then ''inline'' else ''none'')\<rparr>)"
proof -
  have eq: "js_strict_eq v (Num (- 1)) = (v = Num (- 1))"
    by (cases v) auto
  show ?thesis
    using assms by (auto simp: cursor_change_def updateTimeDisplay_def Let_def eq)
qed

lemma run_snoc: "run (evs @ [e]) st = step (run evs st) e"
  by (simp add: run_def)

lemma run_not_loaded:
  "fst (run evs (init_state sl se an)) \<noteq> Loaded \<Longrightarrow>
     trips (snd (run evs (init_state sl se an))) = [] \<and>
     radiusScale (snd (run evs (init_state sl se an))) = None \<and>
     svg_circles (snd (run evs (init_state sl se an))) = []"
proof (induction evs rule: rev_induct)
  case Nil
  show ?case by (simp add: run_def init_state_def)
next
  case (snoc e evs)
  obtain ph st where r: "run evs (init_state sl se an) = (ph, st)"
    by (cases "run evs (init_state sl se an)")
  show ?case
  proof (cases e)
    case (Cursor_change v)
    with snoc r have ih: "trips st = [] \<and> radiusScale st = None \<and> svg_circles st = []"
      by (simp add: run_snoc)
    then show ?thesis
      using cursor_change_no_data [of st v] Cursor_change r by (simp add: run_snoc)
  next
    case (Stations_loaded ss)
    with snoc r show ?thesis by (auto simp: run_snoc split: if_splits)
  next
    case (Trips_loaded ts)
    with snoc r show ?thesis by (auto simp: run_snoc Let_def split: if_splits)
  next
    case Load_error
    with snoc r show ?thesis by (auto simp: run_snoc split: if_splits)
  qed
qed

text \<open>
  Claim C8. In every run of the page from its initial state, as long as the loads have not
  both completed no render has happened: there is no radius scale and no circle. And a
  cursor-change notification that finds the station list or the trip list empty leaves the
  circles, the radius scale and the data as they were; when the page has the slider and
  both label elements it returns normally, having changed the cursor and the label only.
\<close>

theorem pipeline_suppressed_before_load:
  "(fst (run evs (init_state sl se an)) \<noteq> Loaded \<longrightarrow>
      radiusScale (snd (run evs (init_state sl se an))) = None \<and>
      svg_circles (snd (run evs (init_state sl se an))) = []) \<and>
   ((stations st = [] \<or> trips st = []) \<longrightarrow>
      svg_circles (final_state (cursor_change v st)) = svg_circles st \<and>
      radiusScale (final_state (cursor_change v st)) = radiusScale st \<and>
      stations (final_state (cursor_change v st)) = stations st \<and>
      trips (final_state (cursor_change v st)) = trips st \<and>
      (timeSlider st \<noteq> None \<and> selectedTimeEl st \<noteq> None \<and> anyTimeLabel st \<noteq> None \<longrightarrow>
         cursor_change v st =
           Inr (st\<lparr>timeSlider := Some v, timeFilter := v,
                   selectedTimeEl := Some (if v = Num (- 1) then [] else formatTime v),
                   anyTimeLabel := Some (if v = Num (- 1) then ''inline'' else ''none'')\<rparr>)))"
  using run_not_loaded [of evs sl se an] cursor_change_no_data [of st v]
    cursor_change_labels [of st v]
  by blast

theorem pipeline_suppressed_before_load_witness:
  "fst (run [Stations_loaded [stA, stB], Cursor_change (Num 510)] page0) \<noteq> Loaded \<and>
   (stations (page0\<lparr>stations := [stA, stB]\<rparr>) = [] \<or> trips (page0\<lparr>stations := [stA, stB]\<rparr>) = []) \<and>
   timeSlider (page0\<lparr>stations := [stA, stB]\<rparr>) \<noteq> None \<and>
   selectedTimeEl (page0\<lparr>stations := [stA, stB]\<rparr>) \<noteq> None \<and>
   anyTimeLabel (page0\<lparr>stations := [stA, stB]\<rparr>) \<noteq> None \<and>
   radiusScale (snd (run [Stations_loaded [stA, stB], Cursor_change (Num 510)] page0)) = None \<and>
   svg_circles (snd (run [Stations_loaded [stA, stB], Cursor_change (Num 510)] page0)) = [] \<and>
   cursor_change (Num 510) (page0\<lparr>stations := [stA, stB]\<rparr>) =
     Inr \<lparr>stations = [stA, stB], trips = [], timeFilter = Num 510, radiusScale = None,
          svg_circles = [], timeSlider = Some (Num 510), selectedTimeEl = Some ''8:30 AM'',
          anyTimeLabel = Some ''none''\<rparr>"
  using pipeline_suppressed_before_load [of "[Stations_loaded [stA, stB], Cursor_change (Num 510)]"
      "Some (Num (- 1))" "Some []" "Some ''inline''" "page0\<lparr>stations := [stA, stB]\<rparr>" "Num 510"]
  by (simp add: page0_def init_state_def run_def cursor_change_def updateTimeDisplay_def
      final_state_def Let_def string_of_nat.simps pad2_def digit_char_def)

subsection \<open>The keyed join\<close>

text \<open>
  Loop 1 leaves in the map, for every key of the group, the index of the first node with
  that key; the nodes it sends to exit are exactly those that are not in the map.
\<close>

lemma bind_nodes_props:
  "bind_nodes ks i m = (m', ex) \<Longrightarrow> (\<forall>k j. m k = Some j \<longrightarrow> j < i) \<Longrightarrow>
     length ex = length ks \<and>
     (\<forall>k j. m' k = Some j \<longrightarrow>
        m k = Some j \<or> (i \<le> j \<and> j < i + length ks \<and> ks ! (j - i) = k \<and> m k = None)) \<and>
     (\<forall>k j. m k = Some j \<longrightarrow> m' k = Some j) \<and>
     (\<forall>k \<in> set ks. m' k \<noteq> None) \<and>
     (\<forall>p < length ks. ex ! p = (\<forall>k. m' k \<noteq> Some (i + p)))"
proof (induction ks arbitrary: i m m' ex)
  case Nil
  then show ?case by simp
next
  case (Cons k0 ks)
  show ?case
  proof (cases "m k0")
    case None
    obtain m1 ex1 where rec: "bind_nodes ks (Suc i) (m(k0 \<mapsto> i)) = (m1, ex1)"
      by (cases "bind_nodes ks (Suc i) (m(k0 \<mapsto> i))")
    have pre: "\<forall>k j. (m(k0 \<mapsto> i)) k = Some j \<longrightarrow> j < Suc i"
      using Cons.prems(2) by (auto simp: less_Suc_eq)
    note ih = Cons.IH [OF rec pre]
    have res: "m' = m1" "ex = False # ex1"
      using Cons.prems(1) None rec by simp_all
    have a: "length ex = length (k0 # ks)" using ih res by simp
    have b: "\<forall>k j. m' k = Some j \<longrightarrow>
        m k = Some j \<or> (i \<le> j \<and> j < i + length (k0 # ks) \<and> (k0 # ks) ! (j - i) = k \<and> m k = None)"
    proof (intro allI impI)
      fix k j assume "m' k = Some j"
      then have "(m(k0 \<mapsto> i)) k = Some j \<or>
          (Suc i \<le> j \<and> j < Suc i + length ks \<and> ks ! (j - Suc i) = k \<and> (m(k0 \<mapsto> i)) k = None)"
        using ih res by blast
      then show "m k = Some j \<or> (i \<le> j \<and> j < i + length (k0 # ks) \<and> (k0 # ks) ! (j - i) = k \<and> m k = None)"
      proof
        assume "(m(k0 \<mapsto> i)) k = Some j"
        then show ?thesis using None by (auto split: if_splits)
      next
        assume h: "Suc i \<le> j \<and> j < Suc i + length ks \<and> ks ! (j - Suc i) = k \<and> (m(k0 \<mapsto> i)) k = None"
        then have "j - i = Suc (j - Suc i)" by arith
        then show ?thesis using h by (auto split: if_splits)
      qed
    qed
    have c: "\<forall>k j. m k = Some j \<longrightarrow> m' k = Some j"
    proof (intro allI impI)
      fix k j assume "m k = Some j"
      then have "(m(k0 \<mapsto> i)) k = Some j" using None by auto
      then show "m' k = Some j" using ih res by blast
    qed
    have k0: "m' k0 = Some i" using ih res by simp
    have d: "\<forall>k \<in> set (k0 # ks). m' k \<noteq> None"
      using ih res k0 by auto
    have e: "\<forall>p < length (k0 # ks). ex ! p = (\<forall>k. m' k \<noteq> Some (i + p))"
    proof (intro allI impI)
      fix p assume p: "p < length (k0 # ks)"
      show "ex ! p = (\<forall>k. m' k \<noteq> Some (i + p))"
      proof (cases p)
        case 0
        then show ?thesis using res k0 by auto
      next
        case (Suc q)
        then have "q < length ks" using p by simp
        then have "ex1 ! q = (\<forall>k. m1 k \<noteq> Some (Suc i + q))" using ih by blast
        then show ?thesis using Suc res by simp
      qed
    qed
    show ?thesis using a b c d e by blast
  next
    case (Some j0)
    obtain m1 ex1 where rec: "bind_nodes ks (Suc i) m = (m1, ex1)"
      by (cases "bind_nodes ks (Suc i) m")
    have pre: "\<forall>k j. m k = Some j \<longrightarrow> j < Suc i"
      using Cons.prems(2) by (auto simp: less_Suc_eq)
    note ih = Cons.IH [OF rec pre]
    have res: "m' = m1" "ex = True # ex1"
      using Cons.prems(1) Some rec by simp_all
    have a: "length ex = length (k0 # ks)" using ih res by simp
    have b: "\<forall>k j. m' k = Some j \<longrightarrow>
        m k = Some j \<or> (i \<le> j \<and> j < i + length (k0 # ks) \<and> (k0 # ks) ! (j - i) = k \<and> m k = None)"
    proof (intro allI impI)
      fix k j assume "m' k = Some j"
      then have "m k = Some j \<or>
          (Suc i \<le> j \<and> j < Suc i + length ks \<and> ks ! (j - Suc i) = k \<and> m k = None)"
        using ih res by blast
      then show "m k = Some j \<or> (i \<le> j \<and> j < i + length (k0 # ks) \<and> (k0 # ks) ! (j - i) = k \<and> m k = None)"
      proof
        assume "m k = Some j"
        then show ?thesis by simp
      next
        assume h: "Suc i \<le> j \<and> j < Suc i + length ks \<and> ks ! (j - Suc i) = k \<and> m k = None"
        then have "j - i = Suc (j - Suc i)" by arith
        then show ?thesis using h by auto
      qed
    qed
    have c: "\<forall>k j. m k = Some j \<longrightarrow> m' k = Some j"
      using ih res by blast
    have d: "\<forall>k \<in> set (k0 # ks). m' k \<noteq> None"
      using ih res Some c by auto
    have e: "\<forall>p < length (k0 # ks). ex ! p = (\<forall>k. m' k \<noteq> Some (i + p))"
    proof (intro allI impI)
      fix p assume p: "p < length (k0 # ks)"
      show "ex ! p = (\<forall>k. m' k \<noteq> Some (i + p))"
      proof (cases p)
        case 0
        have "\<forall>k. m' k \<noteq> Some i"
        proof
          fix k show "m' k \<noteq> Some i"
          proof
            assume "m' k = Some i"
            then have "m k = Some i \<or> Suc i \<le> i" using ih res by blast
            then show False using Cons.prems(2) by auto
          qed
        qed
        then show ?thesis using 0 res by simp
      next
        case (Suc q)
        then have "q < length ks" using p by simp
        then have "ex1 ! q = (\<forall>k. m1 k \<noteq> Some (Suc i + q))" using ih by blast
        then show ?thesis using Suc res by simp
      qed
    qed
    show ?thesis using a b c d e by blast
  qed
qed

lemma bind_nodes_empty:
  assumes "bind_nodes ks 0 Map.empty = (m', ex)"
  shows "length ex = length ks"
    and "\<And>k j. m' k = Some j \<Longrightarrow> j < length ks \<and> ks ! j = k"
    and "\<And>k. k \<in> set ks \<Longrightarrow> m' k \<noteq> None"
    and "\<And>p. p < length ks \<Longrightarrow> ex ! p = (\<forall>k. m' k \<noteq> Some p)"
  using bind_nodes_props [OF assms] by auto

text \<open>
  Loop 2, on a map that sends different keys to different nodes: the update nodes are
  pairwise different, they are the nodes that the loop takes out of the map, each carries
  the datum that took it, and nothing but the datum of a node changes.
\<close>

lemma bind_data_length:
  "bind_data ds m g = (upd, m', g') \<Longrightarrow> length upd = length ds \<and> length g' = length g"
proof (induction ds arbitrary: m g upd m' g')
  case Nil
  then show ?case by simp
next
  case (Cons d ds)
  show ?case
  proof (cases "m (short_name d)")
    case None
    obtain u1 m1 g1 where rec: "bind_data ds m g = (u1, m1, g1)"
      by (cases "bind_data ds m g")
    show ?thesis using Cons.prems None rec Cons.IH [OF rec] by auto
  next
    case (Some i)
    obtain u1 m1 g1 where rec:
      "bind_data ds (m(short_name d := None)) (g[i := (g ! i)\<lparr>datum := d\<rparr>]) = (u1, m1, g1)"
      by (cases "bind_data ds (m(short_name d := None)) (g[i := (g ! i)\<lparr>datum := d\<rparr>])")
    show ?thesis using Cons.prems Some rec Cons.IH [OF rec] by auto
  qed
qed

lemma bind_data_titles:
  "bind_data ds m g = (upd, m', g') \<Longrightarrow> map titles g' = map titles g"
proof (induction ds arbitrary: m g upd m' g')
  case Nil
  then show ?case by simp
next
  case (Cons d ds)
  show ?case
  proof (cases "m (short_name d)")
    case None
    obtain u1 m1 g1 where rec: "bind_data ds m g = (u1, m1, g1)"
      by (cases "bind_data ds m g")
    show ?thesis using Cons.prems None rec Cons.IH [OF rec] by auto
  next
    case (Some i)
    obtain u1 m1 g1 where rec:
      "bind_data ds (m(short_name d := None)) (g[i := (g ! i)\<lparr>datum := d\<rparr>]) = (u1, m1, g1)"
      by (cases "bind_data ds (m(short_name d := None)) (g[i := (g ! i)\<lparr>datum := d\<rparr>])")
    have "map titles (g[i := (g ! i)\<lparr>datum := d\<rparr>]) = map titles g"
    proof (cases "i < length g")
      case True
      then have "(map titles g)[i := map titles g ! i] = map titles g"
        by (simp only: list_update_id)
      then show ?thesis using True by (simp add: map_update)
    next
      case False
      then have "g[i := (g ! i)\<lparr>datum := d\<rparr>] = g"
        by (intro list_update_beyond) simp
      then show ?thesis by simp
    qed
    then show ?thesis using Cons.prems Some rec Cons.IH [OF rec] by auto
  qed
qed

lemma bind_data_props:
  "bind_data ds m g = (upd, m', g') \<Longrightarrow>
   (\<forall>k k' j. m k = Some j \<and> m k' = Some j \<longrightarrow> k = k') \<Longrightarrow>
   (\<forall>k j. m k = Some j \<longrightarrow> j < length g) \<Longrightarrow>
     (\<forall>k j. m' k = Some j \<longrightarrow> m k = Some j) \<and>
     distinct (somes upd) \<and>
     (\<forall>j. j \<in> set (somes upd) \<longleftrightarrow> (\<exists>k. m k = Some j) \<and> (\<forall>k. m' k \<noteq> Some j)) \<and>
     (\<forall>i. i \<notin> set (somes upd) \<longrightarrow> g' ! i = g ! i) \<and>
     map (\<lambda>i. datum (g' ! i)) (somes upd) = map snd (filter (\<lambda>(u, d). u \<noteq> None) (zip upd ds))"
proof (induction ds arbitrary: m g upd m' g')
  case Nil
  then show ?case by auto
next
  case (Cons d ds)
  show ?case
  proof (cases "m (short_name d)")
    case None
    obtain u1 m1 g1 where rec: "bind_data ds m g = (u1, m1, g1)"
      by (cases "bind_data ds m g")
    have res: "upd = None # u1" "m' = m1" "g' = g1"
      using Cons.prems(1) None rec by simp_all
    show ?thesis using Cons.IH [OF rec Cons.prems(2) Cons.prems(3)] unfolding res by simp
  next
    case (Some i)
    let ?m = "m(short_name d := None)"
    let ?g = "g[i := (g ! i)\<lparr>datum := d\<rparr>]"
    obtain u1 m1 g1 where rec: "bind_data ds ?m ?g = (u1, m1, g1)"
      by (cases "bind_data ds ?m ?g")
    have res: "upd = Some i # u1" "m' = m1" "g' = g1"
      using Cons.prems(1) Some rec by simp_all
    have inj: "\<forall>k k' j. ?m k = Some j \<and> ?m k' = Some j \<longrightarrow> k = k'"
      using Cons.prems(2) by (auto split: if_splits)
    have rng: "\<forall>k j. ?m k = Some j \<longrightarrow> j < length ?g"
      using Cons.prems(3) by (auto split: if_splits)
    note ih = Cons.IH [OF rec inj rng]
    have ilt: "i < length g" using Cons.prems(3) Some by blast
    have noti_m: "\<And>k. ?m k \<noteq> Some i"
    proof
      fix k assume h: "?m k = Some i"
      then have "k \<noteq> short_name d" "m k = Some i" by (auto split: if_splits)
      then show False using Cons.prems(2) Some by blast
    qed
    have noti_m1: "\<And>k. m1 k \<noteq> Some i"
      using ih noti_m by blast
    have noti: "i \<notin> set (somes u1)"
      using ih noti_m by blast
    have a: "\<forall>k j. m' k = Some j \<longrightarrow> m k = Some j"
    proof (intro allI impI)
      fix k j assume "m' k = Some j"
      then have "?m k = Some j" using ih res by blast
      then show "m k = Some j" by (auto split: if_splits)
    qed
    have b: "distinct (somes upd)"
      using ih noti res by simp
    have c: "\<forall>j. j \<in> set (somes upd) \<longleftrightarrow> (\<exists>k. m k = Some j) \<and> (\<forall>k. m' k \<noteq> Some j)"
    proof
      fix j
      show "j \<in> set (somes upd) \<longleftrightarrow> (\<exists>k. m k = Some j) \<and> (\<forall>k. m' k \<noteq> Some j)"
      proof (cases "j = i")
        case True
        then show ?thesis using Some noti_m1 res by auto
      next
        case False
        have "(\<exists>k. ?m k = Some j) = (\<exists>k. m k = Some j)"
          using False Some by (metis fun_upd_apply option.inject option.simps(3))
        moreover have "j \<in> set (somes u1) \<longleftrightarrow> (\<exists>k. ?m k = Some j) \<and> (\<forall>k. m1 k \<noteq> Some j)"
          using ih by blast
        ultimately show ?thesis using False res by simp
      qed
    qed
    have d1: "\<forall>x. x \<notin> set (somes upd) \<longrightarrow> g' ! x = g ! x"
    proof (intro allI impI)
      fix x assume "x \<notin> set (somes upd)"
      then have "x \<noteq> i" "x \<notin> set (somes u1)" using res by auto
      then have "g1 ! x = ?g ! x" using ih by blast
      then show "g' ! x = g ! x" using \<open>x \<noteq> i\<close> res by simp
    qed
    have "g1 ! i = ?g ! i" using ih noti by blast
    then have di: "datum (g' ! i) = d" using ilt res by simp
    have e: "map (\<lambda>i. datum (g' ! i)) (somes upd) = map snd (filter (\<lambda>(u, d). u \<noteq> None) (zip upd (d # ds)))"
      using ih di res by simp
    show ?thesis using a b c d1 e by blast
  qed
qed

lemma bind_rest_props:
  "length (bind_rest ks i m) = length ks \<and>
   (\<forall>p < length ks. bind_rest ks i m ! p = (m (ks ! p) = Some (i + p)))"
proof (induction ks arbitrary: i)
  case Nil
  show ?case by simp
next
  case (Cons k ks)
  show ?case
  proof (intro conjI allI impI)
    show "length (bind_rest (k # ks) i m) = length (k # ks)" using Cons by simp
  next
    fix p assume "p < length (k # ks)"
    then show "bind_rest (k # ks) i m ! p = (m ((k # ks) ! p) = Some (i + p))"
      using Cons [of "Suc i"] by (cases p) auto
  qed
qed

text \<open>
  Together: every node of the group either exits or is the update node of exactly one
  datum.
\<close>

lemma bindKey_props:
  assumes "bindKey grp data = (upd, ex, grp')"
  shows "length upd = length data \<and> length ex = length grp \<and> length grp' = length grp \<and>
         distinct (somes upd) \<and>
         set (somes upd) = {i. i < length grp \<and> \<not> ex ! i} \<and>
         map (\<lambda>i. datum (grp' ! i)) (somes upd)
           = map snd (filter (\<lambda>(u, d). u \<noteq> None) (zip upd data)) \<and>
         map titles grp' = map titles grp"
proof -
  let ?K = "map (\<lambda>node. short_name (datum node)) grp"
  obtain m1 dup where n: "bind_nodes ?K 0 Map.empty = (m1, dup)"
    by (cases "bind_nodes ?K 0 Map.empty")
  obtain u m2 g2 where d: "bind_data data m1 grp = (u, m2, g2)"
    by (cases "bind_data data m1 grp") 
  have res: "upd = u" "grp' = g2"
    "ex = map (\<lambda>(a, b). a \<or> b) (zip dup (bind_rest ?K 0 m2))"
    using assms n d by (simp_all add: bindKey_def Let_def)
  note np = bind_nodes_empty [OF n]
  have m1: "\<And>k j. m1 k = Some j \<Longrightarrow> j < length grp \<and> short_name (datum (grp ! j)) = k"
    using np(2) by fastforce
  have inj: "\<forall>k k' j. m1 k = Some j \<and> m1 k' = Some j \<longrightarrow> k = k'"
    using m1 by blast
  have rng: "\<forall>k j. m1 k = Some j \<longrightarrow> j < length grp"
    using m1 by blast
  note dp = bind_data_props [OF d inj rng]
  note dl = bind_data_length [OF d]
  have lrest: "length (bind_rest ?K 0 m2) = length grp"
    using bind_rest_props [of ?K 0 m2] by simp
  have ldup: "length dup = length grp" using np(1) by simp
  have exi: "ex ! i = ((\<forall>k. m1 k \<noteq> Some i) \<or> m2 (short_name (datum (grp ! i))) = Some i)"
    if "i < length grp" for i
  proof -
    have "bind_rest ?K 0 m2 ! i = (m2 (?K ! i) = Some (0 + i))"
      using bind_rest_props [of ?K 0 m2] that by simp
    moreover have "dup ! i = (\<forall>k. m1 k \<noteq> Some i)" using np(4) that by simp
    ultimately show ?thesis using that ldup lrest res(3) by simp
  qed
  have set_eq: "set (somes upd) = {i. i < length grp \<and> \<not> ex ! i}"
  proof (intro set_eqI iffI)
    fix i assume "i \<in> set (somes upd)"
    then have h: "(\<exists>k. m1 k = Some i) \<and> (\<forall>k. m2 k \<noteq> Some i)"
      using dp res by blast
    then have "i < length grp" using m1 by blast
    then show "i \<in> {i. i < length grp \<and> \<not> ex ! i}" using h exi by simp
  next
    fix i assume "i \<in> {i. i < length grp \<and> \<not> ex ! i}"
    then have i: "i < length grp" and ne: "\<not> ex ! i" by simp_all
    from ne exi [OF i] obtain k where k: "m1 k = Some i"
      and r: "m2 (short_name (datum (grp ! i))) \<noteq> Some i" by blast
    have "\<forall>k'. m2 k' \<noteq> Some i"
    proof
      fix k' show "m2 k' \<noteq> Some i"
      proof
        assume a: "m2 k' = Some i"
        then have "m1 k' = Some i" using dp by blast
        then have "short_name (datum (grp ! i)) = k'" using m1 by blast
        then show False using a r by simp
      qed
    qed
    then show "i \<in> set (somes upd)" using dp res k by blast
  qed
  have lex: "length ex = length grp" using res(3) ldup lrest by simp
  show ?thesis
    using dl dp set_eq lex bind_data_titles [OF d] res(1,2) by simp
qed

subsection \<open>The document after a render\<close>

lemma mset_insert_before: "mset (insert_before n e doc) = add_mset e (mset doc)"
proof (cases n)
  case None
  then show ?thesis by simp
next
  case (Some i)
  show ?thesis unfolding Some by (induction doc) auto
qed

lemma mset_append_enter:
  "mset (append_enter upd ds doc) =
     mset doc + mset (map (\<lambda>d. (New, new_circle d))
                       (map snd (filter (\<lambda>(u, d). u = None) (zip upd ds))))"
  by (induction upd ds doc rule: append_enter.induct) (simp_all add: mset_insert_before)

lemma on_merged_comp: "on_merged ex f (on_merged ex g doc) = on_merged ex (f \<circ> g) doc"
  by (induction doc) (auto simp: on_merged_def)

lemma filter_keep_on_merged:
  "filter (\<lambda>(t, c). \<not> is_exit ex t) (on_merged ex f doc)
     = map (\<lambda>(t, c). (t, f c)) (filter (\<lambda>(t, c). \<not> is_exit ex t) doc)"
  by (induction doc) (auto simp: on_merged_def)

lemma filter_exit_on_merged:
  "filter (\<lambda>(t, c). is_exit ex t) (on_merged ex f doc) = filter (\<lambda>(t, c). is_exit ex t) doc"
  by (induction doc) (auto simp: on_merged_def split: if_splits)

lemma reconcile_eq:
  assumes "bindKey grp data = (upd, ex, grp')"
  shows "reconcile rs grp data =
           (map (restyle rs \<circ> snd)
              (filter (\<lambda>(t, c). \<not> is_exit ex t)
                 (append_enter upd data (zip (map Old [0 ..< length grp']) grp'))),
            map snd (filter (\<lambda>(u, d). u = None) (zip upd data)),
            map snd (filter (\<lambda>(t, c). is_exit ex t)
                 (append_enter upd data (zip (map Old [0 ..< length grp']) grp'))))"
proof -
  have r: "restyle rs = append_title \<circ> (remove_title \<circ> set_attrs rs)"
    by (simp add: restyle_def fun_eq_iff)
  have m: "map snd (map (\<lambda>(t, c). (t, f c)) xs) = map (f \<circ> snd) xs" for f :: "marker \<Rightarrow> marker" and xs :: "(tag \<times> marker) list"
    by (induction xs) auto
  show ?thesis
    using assms
    by (simp add: reconcile_def Let_def on_merged_comp filter_keep_on_merged
        filter_exit_on_merged r m)
qed

text \<open>
  After the join the circles carry exactly the data, each datum once, whatever the
  circles were before and also when keys repeat.
\<close>

lemma datum_restyle: "datum (restyle rs c) = datum c"
  by (simp add: restyle_def append_title_def remove_title_def set_attrs_def)

lemma titles_restyle: "titles (restyle rs c) = drop 1 (titles c) @ [tooltip (datum c)]"
  by (simp add: restyle_def append_title_def remove_title_def set_attrs_def)

lemma doc0_eq: "zip (map Old [0 ..< length g]) g = map (\<lambda>i. (Old i, g ! i)) [0 ..< length g]"
  by (intro nth_equalityI) simp_all

lemma somes_zip:
  "length upd = length ds \<Longrightarrow>
     mset (map snd (filter (\<lambda>(u, d). u \<noteq> None) (zip upd ds)))
       + mset (map snd (filter (\<lambda>(u, d). u = None) (zip upd ds))) = mset ds"
proof (induction upd ds rule: list_induct2)
  case Nil
  show ?case by simp
next
  case (Cons u upd d ds)
  then show ?case by (cases u) auto
qed

lemma reconcile_data:
  assumes "reconcile rs grp data = (circles, created, removed)"
  shows "mset (map datum circles) = mset data"
proof -
  obtain upd ex grp' where b: "bindKey grp data = (upd, ex, grp')"
    by (cases "bindKey grp data")
  note bp = bindKey_props [OF b]
  let ?n = "length grp'"
  let ?doc0 = "zip (map Old [0 ..< ?n]) grp'"
  let ?news = "map (\<lambda>d. (New, new_circle d)) (map snd (filter (\<lambda>(u, d). u = None) (zip upd data)))"
  let ?keep = "\<lambda>(t, c). \<not> is_exit ex t"
  have circles: "circles = map (restyle rs \<circ> snd) (filter ?keep (append_enter upd data ?doc0))"
    using assms reconcile_eq [OF b, of rs] by simp
  have "mset (map datum circles)
      = image_mset (datum \<circ> snd) (filter_mset ?keep (mset (append_enter upd data ?doc0)))"
    unfolding circles by (simp add: o_def datum_restyle flip: mset_filter)
  also have "\<dots> = image_mset (datum \<circ> snd) (filter_mset ?keep (mset ?doc0))
                 + image_mset (datum \<circ> snd) (filter_mset ?keep (mset ?news))"
    by (simp add: mset_append_enter)
  also have "image_mset (datum \<circ> snd) (filter_mset ?keep (mset ?news))
      = mset (map snd (filter (\<lambda>(u, d). u = None) (zip upd data)))"
  proof -
    have f1: "filter ?keep ?news = ?news"
      by (intro filter_True) (auto simp: is_exit_def)
    have f2: "map (datum \<circ> snd) ?news
        = map snd (filter (\<lambda>(u, d). u = None) (zip upd data))"
      by (simp add: o_def new_circle_def)
    have f3: "image_mset (datum \<circ> snd) (filter_mset ?keep (mset ?news))
        = mset (map (datum \<circ> snd) (filter ?keep ?news))"
      by (metis mset_filter mset_map)
    show ?thesis by (simp only: f3 f1 f2)
  qed
  also have "image_mset (datum \<circ> snd) (filter_mset ?keep (mset ?doc0))
      = mset (map snd (filter (\<lambda>(u, d). u \<noteq> None) (zip upd data)))"
  proof -
    have "filter ?keep ?doc0 = map (\<lambda>i. (Old i, grp' ! i)) (filter (\<lambda>i. \<not> ex ! i) [0 ..< ?n])"
      unfolding doc0_eq by (simp add: filter_map o_def is_exit_def)
    then have "image_mset (datum \<circ> snd) (filter_mset ?keep (mset ?doc0))
        = image_mset (\<lambda>i. datum (grp' ! i)) (mset (filter (\<lambda>i. \<not> ex ! i) [0 ..< ?n]))"
      by (simp add: o_def flip: mset_filter mset_map)
    also have "mset (filter (\<lambda>i. \<not> ex ! i) [0 ..< ?n]) = mset (somes upd)"
    proof (rule iffD1 [OF set_eq_iff_mset_eq_distinct])
      show "distinct (filter (\<lambda>i. \<not> ex ! i) [0 ..< ?n])" by simp
      show "distinct (somes upd)" using bp by simp
      show "set (filter (\<lambda>i. \<not> ex ! i) [0 ..< ?n]) = set (somes upd)"
        using bp by auto
    qed
    also have "image_mset (\<lambda>i. datum (grp' ! i)) (mset (somes upd))
        = mset (map (\<lambda>i. datum (grp' ! i)) (somes upd))"
      by simp
    finally have X: "image_mset (datum \<circ> snd) (filter_mset ?keep (mset ?doc0))
        = mset (map (\<lambda>i. datum (grp' ! i)) (somes upd))" .
    have Y: "map (\<lambda>i. datum (grp' ! i)) (somes upd)
        = map snd (filter (\<lambda>(u, d). u \<noteq> None) (zip upd data))"
      using bp by blast
    show ?thesis by (simp only: X Y)
  qed
  finally have Z: "mset (map datum circles)
      = mset (map snd (filter (\<lambda>(u, d). u \<noteq> None) (zip upd data)))
        + mset (map snd (filter (\<lambda>(u, d). u = None) (zip upd data)))" .
  have "length upd = length data" using bp by blast
  then show ?thesis by (simp only: Z somes_zip)
qed

lemma reconcile_titles:
  assumes "reconcile rs grp data = (circles, created, removed)"
    and "\<forall>c \<in> set grp. length (titles c) \<le> 1"
  shows "\<forall>c \<in> set circles. titles c = [tooltip (datum c)]"
proof -
  obtain upd ex grp' where b: "bindKey grp data = (upd, ex, grp')"
    by (cases "bindKey grp data")
  note bp = bindKey_props [OF b]
  let ?doc0 = "zip (map Old [0 ..< length grp']) grp'"
  have circles: "circles = map (restyle rs \<circ> snd)
      (filter (\<lambda>(t, c). \<not> is_exit ex t) (append_enter upd data ?doc0))"
    using assms(1) reconcile_eq [OF b, of rs] by simp
  have old: "\<forall>c \<in> set grp'. length (titles c) \<le> 1"
  proof
    fix c assume "c \<in> set grp'"
    then have "titles c \<in> set (map titles grp')" by simp
    then have "titles c \<in> set (map titles grp)" using bp by simp
    then show "length (titles c) \<le> 1" using assms(2) by auto
  qed
  have "set (append_enter upd data ?doc0) = set_mset (mset (append_enter upd data ?doc0))"
    by simp
  then have elems: "\<forall>x \<in> set (append_enter upd data ?doc0). length (titles (snd x)) \<le> 1"
    unfolding mset_append_enter using old by (auto simp: new_circle_def dest: set_zip_rightD)
  show ?thesis
  proof
    fix c assume "c \<in> set circles"
    then obtain x where x: "x \<in> set (append_enter upd data ?doc0)" and c: "c = restyle rs (snd x)"
      unfolding circles by auto
    have "length (titles (snd x)) \<le> 1" using elems x by blast
    then have "drop 1 (titles (snd x)) = []" by simp
    then show "titles c = [tooltip (datum c)]"
      unfolding c by (simp add: titles_restyle datum_restyle)
  qed
qed

subsection \<open>A second run on the same data\<close>

text \<open>
  When the keys of the data are pairwise distinct and the circles carry exactly the data,
  every datum finds its node: nothing enters, nothing exits, and every node keeps its datum.
\<close>

lemma bind_data_all_bound:
  "bind_data ds m g = (upd, m', g') \<Longrightarrow> distinct (map short_name ds) \<Longrightarrow>
     (\<forall>d \<in> set ds. m (short_name d) \<noteq> None) \<Longrightarrow> None \<notin> set upd"
proof (induction ds arbitrary: m g upd m' g')
  case Nil
  then show ?case by simp
next
  case (Cons d ds)
  from Cons.prems(3) obtain i where i: "m (short_name d) = Some i" by auto
  let ?m = "m(short_name d := None)"
  let ?g = "g[i := (g ! i)\<lparr>datum := d\<rparr>]"
  obtain u1 m1 g1 where rec: "bind_data ds ?m ?g = (u1, m1, g1)"
    by (cases "bind_data ds ?m ?g")
  have res: "upd = Some i # u1" using Cons.prems(1) i rec by simp
  have "\<forall>d' \<in> set ds. ?m (short_name d') \<noteq> None"
  proof
    fix d' assume d': "d' \<in> set ds"
    then have "short_name d' \<in> set (map short_name ds)" by simp
    then have "short_name d' \<noteq> short_name d" using Cons.prems(2) by auto
    then show "?m (short_name d') \<noteq> None" using Cons.prems(3) d' by simp
  qed
  moreover have "distinct (map short_name ds)" using Cons.prems(2) by simp
  ultimately have "None \<notin> set u1" using Cons.IH [OF rec] by blast
  then show ?case using res by simp
qed

lemma bind_data_only_datum:
  "bind_data ds m g = (upd, m', g') \<Longrightarrow> g' ! i = (g ! i)\<lparr>datum := datum (g' ! i)\<rparr>"
proof (induction ds arbitrary: m g upd m' g')
  case Nil
  then show ?case by simp
next
  case (Cons d ds)
  show ?case
  proof (cases "m (short_name d)")
    case None
    obtain u1 m1 g1 where rec: "bind_data ds m g = (u1, m1, g1)"
      by (cases "bind_data ds m g")
    show ?thesis using Cons.prems None rec Cons.IH [OF rec] by simp
  next
    case (Some i0)
    let ?g = "g[i0 := (g ! i0)\<lparr>datum := d\<rparr>]"
    obtain u1 m1 g1 where rec: "bind_data ds (m(short_name d := None)) ?g = (u1, m1, g1)"
      by (cases "bind_data ds (m(short_name d := None)) ?g")
    have res: "g' = g1" using Cons.prems Some rec by simp
    have ih: "g1 ! i = (?g ! i)\<lparr>datum := datum (g1 ! i)\<rparr>" using Cons.IH [OF rec] .
    have "(?g ! i)\<lparr>datum := x\<rparr> = (g ! i)\<lparr>datum := x\<rparr>" for x
    proof (cases "i = i0 \<and> i0 < length g")
      case True
      then show ?thesis by simp
    next
      case False
      then have "?g ! i = g ! i"
        by (cases "i0 < length g") (auto simp: list_update_beyond)
      then show ?thesis by simp
    qed
    then show ?thesis using ih res by simp
  qed
qed

lemma bind_data_key:
  "bind_data ds m g = (upd, m', g') \<Longrightarrow>
   (\<forall>k k' j. m k = Some j \<and> m k' = Some j \<longrightarrow> k = k') \<Longrightarrow>
   (\<forall>k j. m k = Some j \<longrightarrow> j < length g) \<Longrightarrow>
     \<forall>i \<in> set (somes upd). datum (g' ! i) \<in> set ds \<and> m (short_name (datum (g' ! i))) = Some i"
proof (induction ds arbitrary: m g upd m' g')
  case Nil
  then show ?case by simp
next
  case (Cons d ds)
  show ?case
  proof (cases "m (short_name d)")
    case None
    obtain u1 m1 g1 where rec: "bind_data ds m g = (u1, m1, g1)"
      by (cases "bind_data ds m g")
    have res: "upd = None # u1" "g' = g1"
      using Cons.prems(1) None rec by simp_all
    show ?thesis using Cons.IH [OF rec Cons.prems(2) Cons.prems(3)] unfolding res by simp
  next
    case (Some i0)
    let ?m = "m(short_name d := None)"
    let ?g = "g[i0 := (g ! i0)\<lparr>datum := d\<rparr>]"
    obtain u1 m1 g1 where rec: "bind_data ds ?m ?g = (u1, m1, g1)"
      by (cases "bind_data ds ?m ?g")
    have res: "upd = Some i0 # u1" "g' = g1"
      using Cons.prems(1) Some rec by simp_all
    have inj: "\<forall>k k' j. ?m k = Some j \<and> ?m k' = Some j \<longrightarrow> k = k'"
      using Cons.prems(2) by (auto split: if_splits)
    have rng: "\<forall>k j. ?m k = Some j \<longrightarrow> j < length ?g"
      using Cons.prems(3) by (auto split: if_splits)
    note ih = Cons.IH [OF rec inj rng]
    note dp = bind_data_props [OF rec inj rng]
    have ilt: "i0 < length g" using Cons.prems(3) Some by blast
    have noti_m: "\<And>k. ?m k \<noteq> Some i0"
    proof
      fix k assume h: "?m k = Some i0"
      then have "k \<noteq> short_name d" "m k = Some i0" by (auto split: if_splits)
      then show False using Cons.prems(2) Some by blast
    qed
    have noti: "i0 \<notin> set (somes u1)" using dp noti_m by blast
    have "g1 ! i0 = ?g ! i0" using dp noti by blast
    then have d0: "datum (g' ! i0) = d" using ilt res by simp
    show ?thesis
    proof
      fix i assume "i \<in> set (somes upd)"
      then consider "i = i0" | "i \<in> set (somes u1)" using res by auto
      then show "datum (g' ! i) \<in> set (d # ds) \<and> m (short_name (datum (g' ! i))) = Some i"
      proof cases
        case 1
        then show ?thesis using d0 Some by simp
      next
        case 2
        then have "datum (g1 ! i) \<in> set ds \<and> ?m (short_name (datum (g1 ! i))) = Some i"
          using ih by blast
        then show ?thesis using res by (auto split: if_splits)
      qed
    qed
  qed
qed

lemma append_enter_no_enter: "None \<notin> set upd \<Longrightarrow> append_enter upd ds doc = doc"
  by (induction upd ds doc rule: append_enter.induct) simp_all

lemma reconcile_stable:
  assumes same: "mset (map datum grp) = mset data"
    and dist: "distinct (map short_name data)"
    and rec: "reconcile rs grp data = (circles, created, removed)"
  shows "created = [] \<and> removed = [] \<and> circles = map (restyle rs) grp"
proof -
  let ?K = "map (\<lambda>node. short_name (datum node)) grp"
  obtain upd ex grp' where b: "bindKey grp data = (upd, ex, grp')"
    by (cases "bindKey grp data")
  note bp = bindKey_props [OF b]
  obtain m1 dup where n: "bind_nodes ?K 0 Map.empty = (m1, dup)"
    by (cases "bind_nodes ?K 0 Map.empty")
  obtain u m2 g2 where d: "bind_data data m1 grp = (u, m2, g2)"
    by (cases "bind_data data m1 grp")
  have res: "upd = u" "grp' = g2"
    using b n d by (simp_all add: bindKey_def Let_def)
  note np = bind_nodes_empty [OF n]
  have m1: "\<And>k j. m1 k = Some j \<Longrightarrow> j < length grp \<and> short_name (datum (grp ! j)) = k"
    using np(2) by fastforce
  have inj: "\<forall>k k' j. m1 k = Some j \<and> m1 k' = Some j \<longrightarrow> k = k'"
    using m1 by blast
  have rng: "\<forall>k j. m1 k = Some j \<longrightarrow> j < length grp"
    using m1 by blast
  have "mset (map short_name (map datum grp)) = mset (map short_name data)"
    using same by (metis mset_map)
  then have keys: "mset ?K = mset (map short_name data)" by (simp add: o_def)
  have setK: "set ?K = set (map short_name data)" using keys by (metis set_mset_mset)
  have len: "length grp = length data" using same by (metis length_map size_mset)
  have bound: "\<forall>d \<in> set data. m1 (short_name d) \<noteq> None"
  proof
    fix x assume "x \<in> set data"
    then have "short_name x \<in> set ?K" using setK by simp
    then show "m1 (short_name x) \<noteq> None" using np(3) by blast
  qed
  have noNone: "None \<notin> set upd"
    using bind_data_all_bound [OF d dist bound] res by simp
  have somes_len: "length (somes xs) = length xs" if "None \<notin> set xs" for xs :: "nat option list"
    using that by (induction xs rule: somes.induct) auto
  have "distinct (somes upd)" using bp by blast
  then have "card (set (somes upd)) = length (somes upd)" by (rule distinct_card)
  moreover have "length upd = length data" using bp by blast
  ultimately have "card (set (somes upd)) = length grp"
    using somes_len [OF noNone] len by simp
  moreover have "set (somes upd) \<subseteq> {..< length grp}" using bp by auto
  ultimately have all: "set (somes upd) = {..< length grp}"
    by (metis card_lessThan card_subset_eq finite_lessThan)
  have noexit: "\<And>i. i < length grp \<Longrightarrow> \<not> ex ! i"
  proof -
    fix i assume "i < length grp"
    then have "i \<in> set (somes upd)" using all by simp
    then show "\<not> ex ! i" using bp by auto
  qed
  have "\<forall>x \<in> set (zip upd data). fst x \<noteq> None"
    using noNone by (metis prod.collapse set_zip_leftD)
  then have created: "map snd (filter (\<lambda>(u, d). u = None) (zip upd data)) = []"
    by (auto simp: filter_empty_conv)
  have ae: "append_enter upd data doc = doc" for doc
    using noNone by (rule append_enter_no_enter)
  have same_nodes: "grp' = grp"
  proof (intro nth_equalityI)
    show "length grp' = length grp" using bp by simp
  next
    fix i assume "i < length grp'"
    then have i: "i < length grp" using bp by simp
    then have iu: "i \<in> set (somes u)" using all res by simp
    from bind_data_key [OF d inj rng] iu
    have din: "datum (g2 ! i) \<in> set data" and k: "m1 (short_name (datum (g2 ! i))) = Some i"
      by blast+
    have k2: "short_name (datum (grp ! i)) = short_name (datum (g2 ! i))"
      using m1 [OF k] by simp
    have "datum (grp ! i) \<in> set (map datum grp)" using i by simp
    then have "datum (grp ! i) \<in> set data" using same by (metis set_mset_mset)
    then have "datum (grp ! i) = datum (g2 ! i)"
      using din k2 dist by (meson distinct_map inj_onD)
    then have e: "datum (g2 ! i) = datum (grp ! i)" by (rule sym)
    have "g2 ! i = (grp ! i)\<lparr>datum := datum (g2 ! i)\<rparr>"
      by (rule bind_data_only_datum [OF d])
    also have "\<dots> = (grp ! i)\<lparr>datum := datum (grp ! i)\<rparr>" by (simp only: e)
    also have "\<dots> = grp ! i" by simp
    finally show "grp' ! i = grp ! i" using res by simp
  qed
  let ?doc0 = "zip (map Old [0 ..< length grp]) grp"
  have keep: "filter (\<lambda>(t, c). \<not> is_exit ex t) ?doc0 = ?doc0"
    by (intro filter_True) (auto simp: is_exit_def doc0_eq noexit)
  have drop: "filter (\<lambda>(t, c). is_exit ex t) ?doc0 = []"
    by (auto simp: filter_empty_conv is_exit_def doc0_eq noexit)
  have "reconcile rs grp data = (map (restyle rs \<circ> snd) ?doc0, [], [])"
    unfolding reconcile_eq [OF b] same_nodes ae created keep drop by simp
  moreover have "map (restyle rs \<circ> snd) ?doc0 = map (restyle rs) grp"
    by (intro nth_equalityI) simp_all
  ultimately show ?thesis using rec by simp
qed

lemma updateScatterPlot_eq:
  "updateScatterPlot tfv st =
     st\<lparr>radiusScale := Some \<lparr>s_domain = (0, real (max_or_1 (computeStationTraffic (stations st)
                                          (filterTripsByTime (trips st) tfv)))),
                              s_range = (if tfv = Num (- 1) then (0, 25) else (3, 50))\<rparr>,
        svg_circles := fst (reconcile
           \<lparr>s_domain = (0, real (max_or_1 (computeStationTraffic (stations st)
                                          (filterTripsByTime (trips st) tfv)))),
            s_range = (if tfv = Num (- 1) then (0, 25) else (3, 50))\<rparr>
           (svg_circles st)
           (computeStationTraffic (stations st) (filterTripsByTime (trips st) tfv)))\<rparr>"
proof -
  have eq: "js_strict_eq tfv (Num (- 1)) = (tfv = Num (- 1))"
    by (cases tfv) auto
  have rs: "(case radiusScale st of
               None \<Rightarrow> scaleSqrt\<lparr>s_domain := D, s_range := (0, 25)\<rparr>
             | Some rs \<Rightarrow> rs\<lparr>s_domain := D\<rparr>)\<lparr>s_range := R\<rparr> = \<lparr>s_domain = D, s_range = R\<rparr>" for D R
    by (cases "radiusScale st") (simp_all add: scaleSqrt_def)
  have mx: "(case d3_max A totalTraffic of None \<Rightarrow> 1 | Some m \<Rightarrow> if m = 0 then 1 else m)
              = max_or_1 A" for A
    by (simp add: d3_max_eq max_or_1_def)
  show ?thesis
    unfolding updateScatterPlot_def Let_def rs mx eq split_beta ..
qed

lemma reconcile_second_run:
  assumes "distinct (map short_name A)"
  shows "fst (snd (reconcile rs' (fst (reconcile rs G A)) A)) = [] \<and>
         snd (snd (reconcile rs' (fst (reconcile rs G A)) A)) = [] \<and>
         fst (reconcile rs' (fst (reconcile rs G A)) A) = map (restyle rs') (fst (reconcile rs G A)) \<and>
         map datum (fst (reconcile rs' (fst (reconcile rs G A)) A)) = map datum (fst (reconcile rs G A))"
proof -
  obtain G1 c1 r1 where first: "reconcile rs G A = (G1, c1, r1)"
    by (cases "reconcile rs G A")
  obtain G2 c2 r2 where second: "reconcile rs' G1 A = (G2, c2, r2)"
    by (cases "reconcile rs' G1 A")
  have "mset (map datum G1) = mset A" using reconcile_data [OF first] .
  then have "c2 = [] \<and> r2 = [] \<and> G2 = map (restyle rs') G1"
    using reconcile_stable [OF _ assms second] by blast
  then show ?thesis using first second by (simp add: o_def datum_restyle)
qed

lemma stations_updateScatterPlot [simp]: "stations (updateScatterPlot tfv st) = stations st"
  by (simp add: updateScatterPlot_eq)

lemma trips_updateScatterPlot [simp]: "trips (updateScatterPlot tfv st) = trips st"
  by (simp add: updateScatterPlot_eq)

lemma svg_circles_updateScatterPlot:
  "svg_circles (updateScatterPlot tfv st) =
     fst (reconcile
           \<lparr>s_domain = (0, real (max_or_1 (computeStationTraffic (stations st)
                                          (filterTripsByTime (trips st) tfv)))),
            s_range = (if tfv = Num (- 1) then (0, 25) else (3, 50))\<rparr>
           (svg_circles st)
           (computeStationTraffic (stations st) (filterTripsByTime (trips st) tfv)))"
  by (simp add: updateScatterPlot_eq)

lemma render_twice:
  assumes "distinct (map short_name (stations st))"
  shows "svg_circles (updateScatterPlot tfv (updateScatterPlot tfv st)) =
           map (restyle \<lparr>s_domain = (0, real (max_or_1 (computeStationTraffic (stations st)
                                          (filterTripsByTime (trips st) tfv)))),
                         s_range = (if tfv = Num (- 1) then (0, 25) else (3, 50))\<rparr>)
             (svg_circles (updateScatterPlot tfv st))"
proof -
  let ?A = "computeStationTraffic (stations st) (filterTripsByTime (trips st) tfv)"
  let ?sc = "\<lparr>s_domain = (0, real (max_or_1 ?A)),
              s_range = (if tfv = Num (- 1) then (0, 25) else (3, 50))\<rparr>"
  have d: "distinct (map short_name ?A)" using assms by (simp only: map_short_name)
  obtain G1 c1 r1 where first: "reconcile ?sc (svg_circles st) ?A = (G1, c1, r1)"
    by (cases "reconcile ?sc (svg_circles st) ?A")
  obtain G2 c2 r2 where second: "reconcile ?sc G1 ?A = (G2, c2, r2)"
    by (cases "reconcile ?sc G1 ?A")
  have "mset (map datum G1) = mset ?A" using reconcile_data [OF first] .
  then have g2: "G2 = map (restyle ?sc) G1"
    using reconcile_stable [OF _ d second] by blast
  have s1: "svg_circles (updateScatterPlot tfv st) = G1"
    unfolding svg_circles_updateScatterPlot first by simp
  have "svg_circles (updateScatterPlot tfv (updateScatterPlot tfv st)) = G2"
    unfolding svg_circles_updateScatterPlot [of tfv "updateScatterPlot tfv st"]
    unfolding stations_updateScatterPlot trips_updateScatterPlot s1 second by simp
  then show ?thesis using g2 s1 by simp
qed

subsection \<open>Decimal numerals and the titles\<close>

lemma digit_char_digit: "d < 10 \<Longrightarrow> digit_char d \<in> set ''0123456789''"
  unfolding digit_char_def by (intro nth_mem) simp

lemma of_char_digit: "d < 10 \<Longrightarrow> of_char (digit_char d) = (48 + d :: nat)"
proof -
  assume "d < 10"
  then have "d \<in> {0, 1, 2, 3, 4, 5, 6, 7, 8, 9}" by auto
  then show ?thesis by (auto simp: digit_char_def)
qed

lemma nat_of_string_snoc:
  "nat_of_string (s @ [c]) = 10 * nat_of_string s + (of_char c - 48)"
  by (simp add: nat_of_string_def)

lemma string_of_nat_digits: "set (string_of_nat n) \<subseteq> set ''0123456789''"
proof (induction n rule: string_of_nat.induct)
  case (1 n)
  show ?case
  proof (cases "n < 10")
    case True
    then show ?thesis
      using digit_char_digit [of n] by (subst string_of_nat.simps) simp
  next
    case False
    have "n mod 10 < 10" by simp
    then show ?thesis
      using 1 [OF False] False digit_char_digit [of "n mod 10"]
      by (subst string_of_nat.simps) simp
  qed
qed

lemma nat_of_string_of_nat: "nat_of_string (string_of_nat n) = n"
proof (induction n rule: string_of_nat.induct)
  case (1 n)
  show ?case
  proof (cases "n < 10")
    case True
    have "nat_of_string [digit_char n] = n"
      using of_char_digit [OF True] nat_of_string_snoc [of "[]" "digit_char n"]
      by (simp add: nat_of_string_def)
    then show ?thesis using True by (subst string_of_nat.simps) simp
  next
    case False
    have m: "n mod 10 < 10" by simp
    have "nat_of_string (string_of_nat (n div 10) @ [digit_char (n mod 10)])
            = 10 * (n div 10) + n mod 10"
      unfolding nat_of_string_snoc using 1 [OF False] of_char_digit [OF m] by simp
    then show ?thesis using False by (subst string_of_nat.simps) simp
  qed
qed

lemma updateScatterPlot_titles:
  assumes "\<forall>c \<in> set (svg_circles st). length (titles c) \<le> 1"
  shows "\<forall>c \<in> set (svg_circles (updateScatterPlot tfv st)). titles c = [tooltip (datum c)]"
proof -
  let ?A = "computeStationTraffic (stations st) (filterTripsByTime (trips st) tfv)"
  let ?sc = "\<lparr>s_domain = (0, real (max_or_1 ?A)),
              s_range = (if tfv = Num (- 1) then (0, 25) else (3, 50))\<rparr>"
  obtain G1 c1 r1 where first: "reconcile ?sc (svg_circles st) ?A = (G1, c1, r1)"
    by (cases "reconcile ?sc (svg_circles st) ?A")
  have s1: "svg_circles (updateScatterPlot tfv st) = G1"
    unfolding svg_circles_updateScatterPlot first by simp
  show ?thesis unfolding s1 using reconcile_titles [OF first assms] .
qed

lemma updateScatterPlot_data:
  "mset (map datum (svg_circles (updateScatterPlot tfv st)))
     = mset (computeStationTraffic (stations st) (filterTripsByTime (trips st) tfv))"
proof -
  let ?A = "computeStationTraffic (stations st) (filterTripsByTime (trips st) tfv)"
  let ?sc = "\<lparr>s_domain = (0, real (max_or_1 ?A)),
              s_range = (if tfv = Num (- 1) then (0, 25) else (3, 50))\<rparr>"
  obtain G1 c1 r1 where first: "reconcile ?sc (svg_circles st) ?A = (G1, c1, r1)"
    by (cases "reconcile ?sc (svg_circles st) ?A")
  have s1: "svg_circles (updateScatterPlot tfv st) = G1"
    unfolding svg_circles_updateScatterPlot first by simp
  show ?thesis unfolding s1 using reconcile_data [OF first] .
qed

lemma titled_updateScatterPlot: "titled st \<Longrightarrow> titled (updateScatterPlot tfv st)"
  unfolding titled_def using updateScatterPlot_titles [of st tfv] by auto

lemma titled_updateTimeDisplay: "titled st \<Longrightarrow> titled (final_state (updateTimeDisplay st))"
proof -
  assume t: "titled st"
  have fields: "titled (st\<lparr>timeFilter := a, selectedTimeEl := b, anyTimeLabel := c\<rparr>)"
    "titled (st\<lparr>timeFilter := a, selectedTimeEl := b\<rparr>)" "titled (st\<lparr>timeFilter := a\<rparr>)" for a b c
    using t by (simp_all add: titled_def)
  show ?thesis
    using t fields titled_updateScatterPlot
    by (auto simp: updateTimeDisplay_def final_state_def Let_def split: option.split)
qed

lemma titled_cursor_change: "titled st \<Longrightarrow> titled (final_state (cursor_change v st))"
proof -
  assume t: "titled st"
  then have "titled (st\<lparr>timeSlider := Some v\<rparr>)" by (simp add: titled_def)
  then show ?thesis
    using t titled_updateTimeDisplay [of "st\<lparr>timeSlider := Some v\<rparr>"]
    by (auto simp: cursor_change_def final_state_def split: option.split)
qed

lemma titled_run: "titled (snd (run evs (init_state sl se an)))"
proof (induction evs rule: rev_induct)
  case Nil
  show ?case by (simp add: run_def init_state_def titled_def)
next
  case (snoc e evs)
  obtain ph st where r: "run evs (init_state sl se an) = (ph, st)"
    by (cases "run evs (init_state sl se an)")
  then have t: "titled st" using snoc by simp
  have a: "titled (st\<lparr>stations := x\<rparr>)" "titled (st\<lparr>trips := y\<rparr>)" for x y
    using t by (simp_all add: titled_def)
  show ?case
  proof (cases e)
    case (Cursor_change v)
    then show ?thesis using titled_cursor_change [OF t] r by (simp add: run_snoc)
  next
    case (Stations_loaded ss)
    then show ?thesis using t a r by (simp add: run_snoc)
  next
    case (Trips_loaded ts)
    then show ?thesis
      using t r titled_updateTimeDisplay [OF titled_updateScatterPlot [OF a(2)]]
      by (simp add: run_snoc Let_def)
  next
    case Load_error
    then show ?thesis using t r by (simp add: run_snoc)
  qed
qed

subsection \<open>Idempotence of the reconciliation and the tooltip text\<close>

text \<open>
  Claim C6. Let the annotated stations \<open>A\<close> have pairwise distinct keys, as the stations
  of a station set do. Reconcile any list of circles \<open>G\<close> with \<open>A\<close>, then reconcile the
  result with \<open>A\<close> again: the second run creates no circle and removes none; its circles
  are those of the first run, in the same order and with the same data, each restyled.
  The same holds for two renders in a row with the same cursor.
\<close>

theorem reconcile_idempotent:
  "(distinct (map short_name A) \<longrightarrow>
      fst (snd (reconcile rs' (fst (reconcile rs G A)) A)) = [] \<and>
      snd (snd (reconcile rs' (fst (reconcile rs G A)) A)) = [] \<and>
      fst (reconcile rs' (fst (reconcile rs G A)) A) = map (restyle rs') (fst (reconcile rs G A)) \<and>
      map datum (fst (reconcile rs' (fst (reconcile rs G A)) A))
        = map datum (fst (reconcile rs G A))) \<and>
   (distinct (map short_name (stations st)) \<longrightarrow>
      map datum (svg_circles (updateScatterPlot tfv (updateScatterPlot tfv st)))
        = map datum (svg_circles (updateScatterPlot tfv st)))"
proof (intro conjI impI)
  assume d: "distinct (map short_name A)"
  show "fst (snd (reconcile rs' (fst (reconcile rs G A)) A)) = []"
    "snd (snd (reconcile rs' (fst (reconcile rs G A)) A)) = []"
    "fst (reconcile rs' (fst (reconcile rs G A)) A) = map (restyle rs') (fst (reconcile rs G A))"
    "map datum (fst (reconcile rs' (fst (reconcile rs G A)) A))
        = map datum (fst (reconcile rs G A))"
    using reconcile_second_run [OF d, of rs' rs G] by blast+
next
  assume "distinct (map short_name (stations st))"
  then show "map datum (svg_circles (updateScatterPlot tfv (updateScatterPlot tfv st)))
        = map datum (svg_circles (updateScatterPlot tfv st))"
    by (simp only: render_twice) (simp add: o_def datum_restyle)
qed

lemma A0_eq: "computeStationTraffic [stA, stB] [trip1, trip2] =
   [\<lparr>short_name = ''A'', lat = 42, lon = - 71, arrivals = 1, departures = 1, totalTraffic = 2\<rparr>,
    \<lparr>short_name = ''B'', lat = 421 / 10, lon = - 711 / 10, arrivals = 1, departures = 1, totalTraffic = 2\<rparr>]"
  by (simp add: computeStationTraffic_eq stA_def stB_def trip1_def trip2_def)

theorem reconcile_idempotent_witness:
  "distinct (map short_name A0) \<and>
   distinct (map short_name (stations st0)) \<and>
   fst (snd (reconcile scaleSqrt [] A0)) = A0 \<and>
   fst (snd (reconcile scaleSqrt (fst (reconcile scaleSqrt [] A0)) A0)) = [] \<and>
   snd (snd (reconcile scaleSqrt (fst (reconcile scaleSqrt [] A0)) A0)) = [] \<and>
   map datum (fst (reconcile scaleSqrt (fst (reconcile scaleSqrt [] A0)) A0)) = A0 \<and>
   map (short_name \<circ> datum) (svg_circles (updateScatterPlot (Num (- 1)) (updateScatterPlot (Num (- 1)) st0)))
     = [''A'', ''B'']"
proof -
  have first: "reconcile sc [] [a, b] = (map (restyle sc \<circ> new_circle) [a, b], [a, b], [])" for sc a b
    by (simp add: reconcile_def bindKey_def Let_def on_merged_def is_exit_def restyle_def)
  have A: "computeStationTraffic (stations st0) (filterTripsByTime (trips st0) (Num (- 1)))
      = computeStationTraffic [stA, stB] [trip1, trip2]"
    by (simp add: st0_def page0_def init_state_def filterTripsByTime_def)
  have c: "svg_circles st0 = []" by (simp add: st0_def page0_def init_state_def)
  have one: "map (short_name \<circ> datum) (svg_circles (updateScatterPlot (Num (- 1)) st0)) = [''A'', ''B'']"
    unfolding svg_circles_updateScatterPlot A A0_eq c first
    by (simp add: datum_restyle new_circle_def)
  have d: "distinct (map short_name (stations st0))"
    by (simp add: st0_def page0_def init_state_def stA_def stB_def)
  have two: "map datum (svg_circles (updateScatterPlot (Num (- 1)) (updateScatterPlot (Num (- 1)) st0)))
        = map datum (svg_circles (updateScatterPlot (Num (- 1)) st0))"
    using reconcile_idempotent [of A0 scaleSqrt scaleSqrt "[]" st0 "Num (- 1)"] d by blast
  have "map (short_name \<circ> datum) (svg_circles (updateScatterPlot (Num (- 1)) (updateScatterPlot (Num (- 1)) st0)))
      = map short_name (map datum (svg_circles (updateScatterPlot (Num (- 1)) (updateScatterPlot (Num (- 1)) st0))))"
    by simp
  also have "\<dots> = map (short_name \<circ> datum) (svg_circles (updateScatterPlot (Num (- 1)) st0))"
    unfolding two by simp
  finally have three: "map (short_name \<circ> datum) (svg_circles (updateScatterPlot (Num (- 1)) (updateScatterPlot (Num (- 1)) st0)))
     = [''A'', ''B'']" using one by simp
  have four: "distinct (map short_name A0)" by (simp add: A0_def annot_def)
  show ?thesis
    using reconcile_idempotent [of A0 scaleSqrt scaleSqrt "[]" st0 "Num (- 1)"] three d four
    unfolding first [of scaleSqrt "annot ''A'' 0 1" "annot ''B'' 1 0", folded A0_def]
    by (simp add: o_def datum_restyle new_circle_def)
qed

text \<open>
  The distinct keys are needed: when the data repeat a key, loop 1 of the next run sends
  the second circle of that key to exit and loop 2 sends the second datum to enter, on
  every run.
\<close>

lemma reconcile_repeated_key:
  "fst (snd (reconcile rs (fst (reconcile rs [] [a, a])) [a, a])) = [a] \<and>
   length (snd (snd (reconcile rs (fst (reconcile rs [] [a, a])) [a, a]))) = 1"
proof -
  have first: "reconcile rs [] [a, a]
      = ([restyle rs (new_circle a), restyle rs (new_circle a)], [a, a], [])"
    by (simp add: reconcile_def bindKey_def Let_def on_merged_def is_exit_def restyle_def)
  have b: "bindKey [restyle rs (new_circle a), restyle rs (new_circle a)] [a, a]
             = ([Some 0, None], [False, True],
                [restyle rs (new_circle a), restyle rs (new_circle a)])"
    by (simp add: bindKey_def Let_def datum_restyle new_circle_def)
  show ?thesis
    unfolding first by (simp add: reconcile_eq [OF b] is_exit_def numeral_2_eq_2)
qed

text \<open>
  Claim C9. The tooltip of a datum is its total traffic, \<open>trips (\<close>, its departures,
  \<open>departures, \<close>, its arrivals and \<open>arrivals)\<close>, the three counts printed as decimal
  numerals (digits only, and reading them back gives the count). After a render the
  circles carry exactly the annotated stations, and every circle has one title, the
  tooltip of its datum, provided no circle had more than one title before; in every run of
  the page from its initial state every circle has exactly that title.
\<close>

theorem tooltip_text:
  "tooltip d = string_of_nat (totalTraffic d) @ '' trips ('' @ string_of_nat (departures d)
                 @ '' departures, '' @ string_of_nat (arrivals d) @ '' arrivals)'' \<and>
   nat_of_string (string_of_nat n) = n \<and>
   set (string_of_nat n) \<subseteq> set ''0123456789'' \<and>
   mset (map datum (svg_circles (updateScatterPlot tfv st)))
     = mset (computeStationTraffic (stations st) (filterTripsByTime (trips st) tfv)) \<and>
   ((\<forall>c \<in> set (svg_circles st). length (titles c) \<le> 1) \<longrightarrow>
      (\<forall>c \<in> set (svg_circles (updateScatterPlot tfv st)). titles c = [tooltip (datum c)])) \<and>
   (\<forall>c \<in> set (svg_circles (snd (run evs (init_state sl se an)))). titles c = [tooltip (datum c)])"
  using nat_of_string_of_nat [of n] string_of_nat_digits [of n] updateScatterPlot_data [of tfv st]
    updateScatterPlot_titles [of st tfv] titled_run [of evs sl se an]
  unfolding titled_def tooltip_def by blast

theorem tooltip_text_witness:
  "svg_circles st0 = [] \<and>
   map titles (svg_circles (updateScatterPlot (Num (- 1)) st0))
     = [[''2 trips (1 departures, 1 arrivals)''], [''2 trips (1 departures, 1 arrivals)'']] \<and>
   list_all (\<lambda>c. titles c = [tooltip (datum c)])
     (svg_circles (updateScatterPlot (Num (- 1)) st0)) \<and>
   nat_of_string (string_of_nat 1205) = 1205 \<and> string_of_nat 1205 = ''1205''"
proof -
  have first: "reconcile sc [] [a, b] = (map (restyle sc \<circ> new_circle) [a, b], [a, b], [])" for sc a b
    by (simp add: reconcile_def bindKey_def Let_def on_merged_def is_exit_def restyle_def)
  have A: "computeStationTraffic (stations st0) (filterTripsByTime (trips st0) (Num (- 1)))
      = computeStationTraffic [stA, stB] [trip1, trip2]"
    by (simp add: st0_def page0_def init_state_def filterTripsByTime_def)
  have c: "svg_circles st0 = []" by (simp add: st0_def page0_def init_state_def)
  have one: "map titles (svg_circles (updateScatterPlot (Num (- 1)) st0))
     = [[''2 trips (1 departures, 1 arrivals)''], [''2 trips (1 departures, 1 arrivals)'']]"
    unfolding svg_circles_updateScatterPlot A A0_eq c first
    by (simp add: titles_restyle new_circle_def tooltip_def string_of_nat.simps digit_char_def)
  have s: "string_of_nat 1205 = ''1205''"
    by (simp add: string_of_nat.simps digit_char_def)
  show ?thesis
    using tooltip_text [of "annot ''A'' 1 1" 1205 "Num (- 1)" st0] one c s
    by (simp add: list_all_iff)
qed

end
